theory Spec2Isabelle
  imports Main "HOL-Library.Sublist"
begin

section \<open>Text primitives of the Python runtime\<close>

text \<open>
  A Python \<^verbatim>\<open>str\<close> is modelled as a \<^typ>\<open>string\<close>: one \<^typ>\<open>char\<close> per code point,
  for texts whose code points lie below 256. The character classes below are the
  Unicode classes that the \<^verbatim>\<open>re\<close> module and \<^verbatim>\<open>str.strip\<close> use, cut down to that range.
\<close>

abbreviation nl :: char where "nl \<equiv> CHR 0x0A"
abbreviation dq :: char where "dq \<equiv> CHR 0x22"
abbreviation sq :: char where "sq \<equiv> CHR 0x27"

definition ord :: "char \<Rightarrow> nat" where
  "ord c = of_char c"

definition between :: "nat \<Rightarrow> nat \<Rightarrow> char \<Rightarrow> bool" where
  "between lo hi c = (lo \<le> ord c \<and> ord c \<le> hi)"

definition one_of :: "string \<Rightarrow> char \<Rightarrow> bool" where
  "one_of cs c = (c \<in> set cs)"

definition none_of :: "string \<Rightarrow> char \<Rightarrow> bool" where
  "none_of cs c = (c \<notin> set cs)"

definition is_digit :: "char \<Rightarrow> bool" where
  "is_digit c = between 48 57 c"

definition is_upper :: "char \<Rightarrow> bool" where
  "is_upper c = between 65 90 c"

definition is_lower :: "char \<Rightarrow> bool" where
  "is_lower c = between 97 122 c"

definition is_alnum :: "char \<Rightarrow> bool" where
  "is_alnum c = (is_lower c \<or> is_upper c \<or> is_digit c)"

text \<open>\<^verbatim>\<open>\s\<close> and \<^verbatim>\<open>str.isspace\<close>: TAB..CR, FS..US, space, NEL, NBSP.\<close>

definition is_space :: "char \<Rightarrow> bool" where
  "is_space c = (between 9 13 c \<or> between 28 32 c \<or> ord c = 133 \<or> ord c = 160)"

text \<open>\<^verbatim>\<open>\w\<close>: alphanumeric code points (letters, decimals, digits, numerics) and the underscore.\<close>

definition is_word :: "char \<Rightarrow> bool" where
  "is_word c = (is_alnum c \<or> ord c = 95 \<or> ord c = 170 \<or> between 178 179 c \<or> ord c = 181
      \<or> between 185 186 c \<or> between 188 190 c \<or> between 192 214 c \<or> between 216 246 c
      \<or> between 248 255 c)"

text \<open>\<^verbatim>\<open>.\<close> without DOTALL: anything but a newline.\<close>

definition any_char :: "char \<Rightarrow> bool" where
  "any_char c = (c \<noteq> nl)"

text \<open>\<^verbatim>\<open>s.split('\n')\<close>: never empty, one more piece than there are newlines.\<close>

fun split_nl :: "string \<Rightarrow> string list" where
  "split_nl [] = [[]]"
| "split_nl (c # cs) =
     (if c = nl then [] # split_nl cs
      else (case split_nl cs of [] \<Rightarrow> [[c]] | l # ls \<Rightarrow> (c # l) # ls))"


text \<open>\<^verbatim>\<open>a in b\<close> on strings.\<close>

fun is_in :: "string \<Rightarrow> string \<Rightarrow> bool" where
  "is_in a [] = (a = [])"
| "is_in a (c # cs) = (prefix a (c # cs) \<or> is_in a cs)"

text \<open>\<^verbatim>\<open>int(s)\<close> on a string of decimal digits, as \<^verbatim>\<open>\d+\<close> captures it.\<close>

definition digit_val :: "char \<Rightarrow> int" where
  "digit_val c = int (ord c) - 48"

definition int_of_digits :: "string \<Rightarrow> int" where
  "int_of_digits s = foldl (\<lambda>a c. 10 * a + digit_val c) 0 s"


section \<open>Regular expressions as \<^verbatim>\<open>re\<close> matches them\<close>

text \<open>
  The constructs that occur in the patterns of the repository: literal text, a character
  class repeated between a lower and an optional upper bound (greedy when the flag is set,
  lazy otherwise), an optional non-capturing group, a capturing group, concatenation and
  \<^verbatim>\<open>$\<close>. A leading \<^verbatim>\<open>^\<close> is not represented: it only occurs in patterns used through
  \<^verbatim>\<open>pattern.match\<close>, which tries position 0 only.
\<close>

datatype rx =
    Lit string
  | Chars "char \<Rightarrow> bool" nat "nat option" bool
  | Opt rx
  | Grp rx
  | Seq rx rx
  | Eol

type_synonym caps = "string option list"

text \<open>\<^verbatim>\<open>pattern.groups\<close>.\<close>

fun groups :: "rx \<Rightarrow> nat" where
  "groups (Lit l) = 0"
| "groups (Chars p m n g) = 0"
| "groups (Opt r) = groups r"
| "groups (Grp r) = Suc (groups r)"
| "groups (Seq a b) = groups a + groups b"
| "groups Eol = 0"

text \<open>The repetition counts a class may take at the head of \<open>s\<close>, in the order tried.\<close>

definition reps :: "(char \<Rightarrow> bool) \<Rightarrow> nat \<Rightarrow> nat option \<Rightarrow> bool \<Rightarrow> string \<Rightarrow> nat list" where
  "reps p m n g s =
     (let k = length (takeWhile p s);
          k' = (case n of None \<Rightarrow> k | Some b \<Rightarrow> min k b);
          js = [m ..< Suc k']
      in if g then rev js else js)"

text \<open>
  All ways of matching \<open>r\<close> at the head of the remaining text, in the order in which the
  backtracking matcher of \<^verbatim>\<open>re\<close> finds them; each with the groups closed so far
  (\<open>None\<close> for a group that took no part) and the text left over.
\<close>

fun ms :: "rx \<Rightarrow> caps \<times> string \<Rightarrow> (caps \<times> string) list" where
  "ms (Lit l) (cs, s) = (if prefix l s then [(cs, drop (length l) s)] else [])"
| "ms (Chars p m n g) (cs, s) = map (\<lambda>j. (cs, drop j s)) (reps p m n g s)"
| "ms (Opt r) (cs, s) = ms r (cs, s) @ [(cs @ replicate (groups r) None, s)]"
| "ms (Grp r) (cs, s) =
     map (\<lambda>(cs', s'). (take (length cs) cs' @ Some (take (length s - length s') s)
                          # drop (length cs) cs', s'))
         (ms r (cs, s))"
| "ms (Seq a b) (cs, s) = concat (map (ms b) (ms a (cs, s)))"
| "ms Eol (cs, s) = (if s = [] \<or> s = [nl] then [(cs, s)] else [])"

text \<open>\<^verbatim>\<open>pattern.match(s)\<close>: the first way, if any; and \<^verbatim>\<open>m.group(i)\<close> for \<open>i \<ge> 1\<close>.\<close>

definition rx_match :: "rx \<Rightarrow> string \<Rightarrow> caps option" where
  "rx_match r s = (case ms r ([], s) of [] \<Rightarrow> None | (cs, rest) # _ \<Rightarrow> Some cs)"

definition group :: "caps \<Rightarrow> nat \<Rightarrow> string option" where
  "group cs i = (if 0 < i \<and> i \<le> length cs then cs ! (i - 1) else None)"

text \<open>A group in a replacement template or a \<^verbatim>\<open>findall\<close> result: empty when unset.\<close>

definition group_text :: "caps \<Rightarrow> nat \<Rightarrow> string" where
  "group_text cs i = (case group cs i of None \<Rightarrow> [] | Some g \<Rightarrow> g)"

text \<open>
  One step of the scanner behind \<^verbatim>\<open>sub\<close> and \<^verbatim>\<open>findall\<close>: the first match at the head of
  \<open>s\<close>; right after an empty match (\<open>adv\<close>) only a non-empty one is accepted.
\<close>

definition match_here :: "rx \<Rightarrow> bool \<Rightarrow> string \<Rightarrow> (caps \<times> string) option" where
  "match_here r adv s =
     (case filter (\<lambda>(cs, rest). if adv then length rest < length s else True) (ms r ([], s)) of
        [] \<Rightarrow> None
      | x # _ \<Rightarrow> Some x)"

text \<open>
  The scan of \<^verbatim>\<open>sub\<close>, \<^verbatim>\<open>findall\<close>: leftmost, non-overlapping matches, and the characters
  between them.
\<close>

datatype seg = Gap char | Hit caps string

function scan :: "rx \<Rightarrow> bool \<Rightarrow> string \<Rightarrow> seg list" where
  "scan r adv s =
     (case match_here r adv s of
        None \<Rightarrow> (case s of [] \<Rightarrow> [] | c # cs \<Rightarrow> Gap c # scan r False cs)
      | Some (cs, rest) \<Rightarrow>
          if length rest < length s
          then Hit cs (take (length s - length rest) s) # scan r False rest
          else if adv then []
          else Hit cs [] # scan r True s)"
  by pat_completeness auto
termination
  by (relation "measure (\<lambda>(r, adv, s). 2 * length s + (if adv then 0 else 1))") auto

text \<open>\<^verbatim>\<open>pattern.sub(repl, s)\<close>, the template given as a function of the groups.\<close>

definition sub :: "rx \<Rightarrow> (caps \<Rightarrow> string) \<Rightarrow> string \<Rightarrow> string" where
  "sub r repl s =
     concat (map (\<lambda>g. case g of Gap c \<Rightarrow> [c] | Hit cs m \<Rightarrow> repl cs) (scan r False s))"

text \<open>
  \<^verbatim>\<open>pattern.findall(s)\<close>: per match the whole match (no group), the group (one group) or
  the tuple of all groups.
\<close>

datatype found = Str string | Tup "string list"

definition findall :: "rx \<Rightarrow> string \<Rightarrow> found list" where
  "findall r s =
     concat (map (\<lambda>g. case g of Gap c \<Rightarrow> []
                     | Hit cs m \<Rightarrow>
                         [if groups r = 0 then Str m
                          else if groups r = 1 then Str (group_text cs 1)
                          else Tup (map (group_text cs) [1 ..< Suc (groups r)])])
                 (scan r False s))"


section \<open>The sanitization rules of \<^verbatim>\<open>load_settings\<close>\<close>

fun seqs :: "rx list \<Rightarrow> rx" where
  "seqs [] = Lit []"
| "seqs [r] = r"
| "seqs (r # rs) = Seq r (seqs rs)"

text \<open>\<^verbatim>\<open>\s*\<close>, \<^verbatim>\<open>\s+\<close>, \<^verbatim>\<open>\w*\<close>, \<^verbatim>\<open>[:=]\<close>, \<^verbatim>\<open>['\"]\<close>, \<^verbatim>\<open>[^'\"]*\<close>.\<close>

definition ws_star :: rx where "ws_star = Chars is_space 0 None True"
definition ws_plus :: rx where "ws_plus = Chars is_space 1 None True"
definition w_star :: rx where "w_star = Chars is_word 0 None True"
definition sep :: rx where "sep = Chars (one_of '':='') 1 (Some 1) True"
definition quote :: rx where "quote = Chars (one_of [sq, dq]) 1 (Some 1) True"
definition unquoted :: rx where "unquoted = Chars (none_of [sq, dq]) 0 None True"

text \<open>The bracket classes of the token rules.\<close>

definition alnum_dash :: "char \<Rightarrow> bool" where
  "alnum_dash c = (is_alnum c \<or> c = CHR ''-'')"

definition upper_digit :: "char \<Rightarrow> bool" where
  "upper_digit c = (is_digit c \<or> is_upper c)"

definition alnum_us_dash :: "char \<Rightarrow> bool" where
  "alnum_us_dash c = (is_alnum c \<or> c = CHR ''_'' \<or> c = CHR ''-'')"

definition base64ish :: "char \<Rightarrow> bool" where
  "base64ish c = (is_alnum c \<or> c = CHR ''+'' \<or> c = CHR ''/'')"

definition lower_hex :: "char \<Rightarrow> bool" where
  "lower_hex c = (between 97 102 c \<or> is_digit c)"

definition alnum_us :: "char \<Rightarrow> bool" where
  "alnum_us c = (is_alnum c \<or> c = CHR ''_'')"

text \<open>\<^verbatim>\<open>(NAME\s*[:=]\s*['\"])([^'\"]*)(['\"])\<close>\<close>

definition assigned :: "string \<Rightarrow> rx" where
  "assigned name =
     seqs [Grp (seqs [Lit name, ws_star, sep, ws_star, quote]), Grp unquoted, Grp quote]"

text \<open>\<^verbatim>\<open>(export\s+\w*NAME\w*\s*=\s*['\"])([^'\"]*)(['\"])\<close>\<close>

definition exported :: "string \<Rightarrow> rx" where
  "exported name =
     seqs [Grp (seqs [Lit ''export'', ws_plus, w_star, Lit name, w_star, ws_star, Lit ''='',
                      ws_star, quote]),
           Grp unquoted, Grp quote]"

text \<open>\<^verbatim>\<open>(\w*NAME\w*\s*=\s*['\"])([^'\"]*)(['\"])\<close>\<close>

definition variable :: "string \<Rightarrow> rx" where
  "variable name =
     seqs [Grp (seqs [w_star, Lit name, w_star, ws_star, Lit ''='', ws_star, quote]),
           Grp unquoted, Grp quote]"

text \<open>\<^verbatim>\<open>(PREFIX[class]{m,})\<close>\<close>

definition token :: "string \<Rightarrow> (char \<Rightarrow> bool) \<Rightarrow> nat \<Rightarrow> rx" where
  "token pre cls m = Grp (Seq (Lit pre) (Chars cls m None True))"

text \<open>\<^verbatim>\<open>(SCHEME://[^:]+:)([^@]+)(@)\<close>\<close>

definition db_url :: "string \<Rightarrow> rx" where
  "db_url scheme =
     seqs [Grp (seqs [Lit scheme, Lit ''://'', Chars (none_of '':'') 1 None True, Lit '':'']),
           Grp (Chars (none_of ''@'') 1 None True), Grp (Lit ''@'')]"

text \<open>\<^verbatim>\<open>(AKIA[0-9A-Z]{16})\<close>\<close>

definition aws_key :: rx where
  "aws_key = Grp (Seq (Lit ''AKIA'') (Chars upper_digit 16 (Some 16) True))"

text \<open>\<^verbatim>\<open>(eyJ[a-zA-Z0-9_-]+\.[a-zA-Z0-9_-]+\.[a-zA-Z0-9_-]+)\<close>\<close>

definition jwt :: rx where
  "jwt = Grp (seqs [Lit ''eyJ'', Chars alnum_us_dash 1 None True, Lit ''.'',
                    Chars alnum_us_dash 1 None True, Lit ''.'', Chars alnum_us_dash 1 None True])"

text \<open>\<^verbatim>\<open>(NAME\s*[:=]\s*['\"])([class]{m,})(['\"])\<close>\<close>

definition assigned_long :: "string \<Rightarrow> (char \<Rightarrow> bool) \<Rightarrow> nat \<Rightarrow> rx" where
  "assigned_long name cls m =
     seqs [Grp (seqs [Lit name, ws_star, sep, ws_star, quote]), Grp (Chars cls m None True),
           Grp quote]"

record SanitizationConfig =
  patterns :: "rx list"
  replacement :: string
  preserve_structure :: bool

definition shipped :: SanitizationConfig where
  "shipped = \<lparr>
     patterns = [
       assigned ''password'', assigned ''api_key'', assigned ''token'', assigned ''secret'',
       assigned ''key'', assigned ''auth'', assigned ''pass'', assigned ''pwd'',
       exported ''PASSWORD'', exported ''SECRET'', exported ''KEY'', exported ''TOKEN'',
       exported ''AUTH'',
       variable ''PASSWORD'', variable ''SECRET'', variable ''KEY'', variable ''TOKEN'',
       variable ''AUTH'',
       token ''sk-'' is_alnum 20, token ''sk-proj-'' is_alnum 20, token ''pk_'' is_alnum 20,
       token ''pk_test_'' is_alnum 20, token ''xoxb-'' alnum_dash 1, token ''xoxp-'' alnum_dash 1,
       token ''ghp_'' is_alnum 36, token ''gho_'' is_alnum 36, token ''ghu_'' is_alnum 36,
       token ''ghs_'' is_alnum 36, token ''ghr_'' is_alnum 36,
       db_url ''mongodb'', db_url ''postgres'', db_url ''mysql'', db_url ''redis'',
       aws_key,
       jwt,
       assigned_long ''password'' base64ish 20, assigned_long ''secret'' lower_hex 32,
       assigned_long ''key'' alnum_us 8],
     replacement = ''[REDACTED]'',
     preserve_structure = True \<rparr>"


section \<open>\<^verbatim>\<open>SanitizationService\<close>\<close>

text \<open>The template \<^verbatim>\<open>\1[REDACTED]\3\<close>.\<close>

definition keep_ends :: "caps \<Rightarrow> string" where
  "keep_ends cs = group_text cs 1 @ ''[REDACTED]'' @ group_text cs 3"

text \<open>The body of the loop of \<^verbatim>\<open>sanitize_diff\<close>: one rule applied to the text so far.\<close>

definition apply_rule :: "SanitizationConfig \<Rightarrow> rx \<Rightarrow> string \<Rightarrow> string" where
  "apply_rule cfg pattern sanitized =
     (if groups pattern = 3 then sub pattern keep_ends sanitized
      else if groups pattern = 1 then sub pattern (\<lambda>cs. ''[REDACTED]'') sanitized
      else sub pattern (\<lambda>cs. replacement cfg) sanitized)"

fun sanitize_loop :: "SanitizationConfig \<Rightarrow> string \<Rightarrow> rx list \<Rightarrow> string" where
  "sanitize_loop cfg sanitized [] = sanitized"
| "sanitize_loop cfg sanitized (pattern # rest) =
     sanitize_loop cfg (apply_rule cfg pattern sanitized) rest"

definition sanitize_diff :: "SanitizationConfig \<Rightarrow> string option \<Rightarrow> string" where
  "sanitize_diff cfg diff =
     (case diff of None \<Rightarrow> [] | Some d \<Rightarrow> sanitize_loop cfg d (patterns cfg))"

text \<open>
  The body of the loop of \<^verbatim>\<open>detect_credentials\<close>: what one rule adds to the result, always
  computed on the text the caller passed.
\<close>

definition credentials_of :: "rx \<Rightarrow> string \<Rightarrow> found list" where
  "credentials_of pattern text =
     (let matches = findall pattern text
      in if groups pattern = 3
         then concat (map (\<lambda>m. case m of
                                   Tup gs \<Rightarrow> if 2 \<le> length gs then [Str (gs ! 1)] else []
                                 | Str g \<Rightarrow> []) matches)
         else matches)"

fun detect_loop :: "string \<Rightarrow> found list \<Rightarrow> rx list \<Rightarrow> found list" where
  "detect_loop text found_credentials [] = found_credentials"
| "detect_loop text found_credentials (pattern # rest) =
     detect_loop text (found_credentials @ credentials_of pattern text) rest"

definition detect_credentials :: "SanitizationConfig \<Rightarrow> string \<Rightarrow> found list" where
  "detect_credentials cfg text = detect_loop text [] (patterns cfg)"


section \<open>\<^verbatim>\<open>DiffParserService\<close>\<close>

text \<open>The structured comment that the feedback tool builds for one issue.\<close>

record Comment =
  content :: string
  severity :: string
  file_path :: string
  line_number :: int
  is_summary :: bool

record DiffLocation =
  file_path :: string
  line_number :: int
  content :: string
  is_addition :: bool

text \<open>\<^verbatim>\<open>(.+?)\<close> and \<^verbatim>\<open>(\d+)\<close>, \<^verbatim>\<open>(?:\[REDACTED\])?\<close>, \<^verbatim>\<open>(?:,\d+)?\<close>.\<close>

definition lazy_any :: rx where "lazy_any = Grp (Chars any_char 1 None False)"
definition number :: rx where "number = Grp (Chars is_digit 1 None True)"
definition opt_redacted :: rx where "opt_redacted = Opt (Lit ''[REDACTED]'')"
definition opt_count :: rx where "opt_count = Opt (Seq (Lit '','') (Chars is_digit 1 None True))"

text \<open>\<^verbatim>\<open>^diff --git a(?:\[REDACTED\])?/(.+?) b(?:\[REDACTED\])?/(.+?)$\<close>\<close>

definition file_header_pattern :: rx where
  "file_header_pattern =
     seqs [Lit ''diff --git a'', opt_redacted, Lit ''/'', lazy_any, Lit '' b'', opt_redacted,
           Lit ''/'', lazy_any, Eol]"

text \<open>\<^verbatim>\<open>^diff --git a/(.+?) b/(.+?)$\<close>\<close>

definition original_file_header_pattern :: rx where
  "original_file_header_pattern =
     seqs [Lit ''diff --git a/'', lazy_any, Lit '' b/'', lazy_any, Eol]"

text \<open>\<^verbatim>\<open>^@@ -(\d+)(?:,\d+)? \+(\d+)(?:,\d+)? @@\<close>\<close>

definition hunk_header_pattern :: rx where
  "hunk_header_pattern =
     seqs [Lit ''@@ -'', number, opt_count, Lit '' +'', number, opt_count, Lit '' @@'']"

text \<open>\<^verbatim>\<open>^\+\<close> and \<^verbatim>\<open>^-\<close>\<close>

definition addition_pattern :: rx where "addition_pattern = Lit ''+''"
definition removal_pattern :: rx where "removal_pattern = Lit ''-''"

text \<open>The local variables of the parsing loop.\<close>

record parser_state =
  locations :: "DiffLocation list"
  current_file :: "string option"
  current_line_number :: "int option"
  lines_since_hunk :: int

definition initial_state :: parser_state where
  "initial_state = \<lparr> locations = [], current_file = None, current_line_number = None,
                      lines_since_hunk = 0 \<rparr>"

text \<open>
  What the loop does with a line that is neither a file header nor a hunk header; the two
  entry points share these lines word for word.
\<close>

definition body_line :: "parser_state \<Rightarrow> string \<Rightarrow> parser_state" where
  "body_line st line =
     (case (current_file st, current_line_number st) of
        (Some file, Some start) \<Rightarrow>
          if file = [] then st
          else (case rx_match addition_pattern line of
             Some m \<Rightarrow>
               st \<lparr> locations := locations st @
                      [\<lparr> file_path = file, line_number = start + lines_since_hunk st,
                         content = drop 1 line, is_addition = True \<rparr>],
                    lines_since_hunk := lines_since_hunk st + 1 \<rparr>
           | None \<Rightarrow>
               (case rx_match removal_pattern line of
                  Some m \<Rightarrow> st
                | None \<Rightarrow>
                    if prefix '' '' line then st \<lparr> lines_since_hunk := lines_since_hunk st + 1 \<rparr>
                    else st))
      | _ \<Rightarrow> st)"

text \<open>The body of the loop of \<^verbatim>\<open>parse_diff\<close>.\<close>

definition parse_step :: "parser_state \<Rightarrow> string \<Rightarrow> parser_state" where
  "parse_step st line =
     (case rx_match file_header_pattern line of
        Some file_match \<Rightarrow>
          st \<lparr> current_file := group file_match 2, current_line_number := None,
               lines_since_hunk := 0 \<rparr>
      | None \<Rightarrow>
          (case rx_match hunk_header_pattern line of
             Some hunk_match \<Rightarrow>
               st \<lparr> current_line_number := Some (int_of_digits (group_text hunk_match 2)),
                    lines_since_hunk := 0 \<rparr>
           | None \<Rightarrow> body_line st line))"

definition parse_diff :: "string option \<Rightarrow> DiffLocation list" where
  "parse_diff diff =
     (case diff of
        None \<Rightarrow> []
      | Some d \<Rightarrow> if d = [] then [] else locations (foldl parse_step initial_state (split_nl d)))"

text \<open>The body of the loop of \<^verbatim>\<open>parse_original_diff\<close>.\<close>

definition parse_original_step :: "parser_state \<Rightarrow> string \<Rightarrow> parser_state" where
  "parse_original_step st line =
     (case rx_match original_file_header_pattern line of
        Some file_match \<Rightarrow>
          st \<lparr> current_file := group file_match 2, current_line_number := None,
               lines_since_hunk := 0 \<rparr>
      | None \<Rightarrow>
          (case rx_match hunk_header_pattern line of
             Some hunk_match \<Rightarrow>
               st \<lparr> current_line_number := Some (int_of_digits (group_text hunk_match 2)),
                    lines_since_hunk := 0 \<rparr>
           | None \<Rightarrow> body_line st line))"

definition parse_original_diff :: "string option \<Rightarrow> DiffLocation list" where
  "parse_original_diff diff =
     (case diff of
        None \<Rightarrow> []
      | Some d \<Rightarrow>
          if d = [] then [] else locations (foldl parse_original_step initial_state (split_nl d)))"


section \<open>Mapping review issues to diff locations\<close>













section \<open>Notions used to state the properties\<close>

text \<open>The most recent element with a property, and what came after it.\<close>

definition last_with :: "('a \<Rightarrow> bool) \<Rightarrow> 'a list \<Rightarrow> 'a option" where
  "last_with P xs = find P (rev xs)"

definition after_last :: "('a \<Rightarrow> bool) \<Rightarrow> 'a list \<Rightarrow> 'a list" where
  "after_last P xs = rev (takeWhile (\<lambda>x. \<not> P x) (rev xs))"

text \<open>How the loop of \<^verbatim>\<open>parse_diff\<close> classifies a line; the file header is tested first.\<close>

definition is_file_header :: "string \<Rightarrow> bool" where
  "is_file_header line = (rx_match file_header_pattern line \<noteq> None)"

definition header_path :: "string \<Rightarrow> string option" where
  "header_path line =
     (case rx_match file_header_pattern line of None \<Rightarrow> None | Some m \<Rightarrow> group m 2)"

definition is_hunk_header :: "string \<Rightarrow> bool" where
  "is_hunk_header line =
     (rx_match file_header_pattern line = None \<and> rx_match hunk_header_pattern line \<noteq> None)"

definition hunk_start :: "string \<Rightarrow> int" where
  "hunk_start line =
     (case rx_match hunk_header_pattern line of
        None \<Rightarrow> 0
      | Some m \<Rightarrow> int_of_digits (group_text m 2))"

definition is_addition_line :: "string \<Rightarrow> bool" where
  "is_addition_line line = prefix ''+'' line"

definition is_context_line :: "string \<Rightarrow> bool" where
  "is_context_line line = prefix '' '' line"

text \<open>The loop of \<^verbatim>\<open>parse_diff\<close> run over the first lines of a diff.\<close>

definition parse_lines :: "string list \<Rightarrow> parser_state" where
  "parse_lines ls = foldl parse_step initial_state ls"


text \<open>
  The two shapes of the shipped rules: three groups side by side that make up the whole
  match, or one group around the whole match.
\<close>

fun three_part :: "rx \<Rightarrow> bool" where
  "three_part (Seq (Grp a) (Seq (Grp b) (Grp c))) = (groups a = 0 \<and> groups b = 0 \<and> groups c = 0)"
| "three_part r = False"

fun one_part :: "rx \<Rightarrow> bool" where
  "one_part (Grp a) = (groups a = 0)"
| "one_part r = False"





text \<open>The text a segment of a scan stands for, and the segment as a piece.\<close>

fun seg_text :: "seg \<Rightarrow> string" where
  "seg_text (Gap c) = [c]"
| "seg_text (Hit cs m) = m"


text \<open>The lines that advance the cursor of a hunk: additions and context lines.\<close>

definition counted :: "string \<Rightarrow> bool" where
  "counted line = (is_addition_line line \<or> is_context_line line)"

text \<open>
  The class of a line as the loop of \<^verbatim>\<open>parse_diff\<close> treats it, a hunk header with the start
  line it declares for the new file.
\<close>

datatype line_kind = FileHeader | HunkHeader int | AdditionLine | RemovalLine | ContextLine
  | OtherLine

definition line_kind :: "string \<Rightarrow> line_kind" where
  "line_kind line =
     (if is_file_header line then FileHeader
      else if is_hunk_header line then HunkHeader (hunk_start line)
      else if is_addition_line line then AdditionLine
      else if prefix ''-'' line then RemovalLine
      else if is_context_line line then ContextLine
      else OtherLine)"



text \<open>A diff of one file and one hunk, used to instantiate the theorems.\<close>

definition sample_diff :: string where
  "sample_diff = ''diff --git a/f.py b/f.py'' @ [nl] @ ''@@ -1,3 +1,4 @@'' @ [nl] @ '' a'' @ [nl]
     @ ''+b'' @ [nl] @ '' c'' @ [nl] @ ''-old'' @ [nl] @ '' d''"


text \<open>The hunk of the worked example: header and body lines, without a file header.\<close>

definition one_hunk_body :: string where
  "one_hunk_body = ''@@ -1,3 +1,4 @@'' @ [nl] @ '' a'' @ [nl] @ ''+b'' @ [nl] @ '' c'' @ [nl]
     @ ''-old'' @ [nl] @ '' d''"

text \<open>
  The state of the loop inside a hunk that starts at line 1 of the new file, and the
  new-file line the next context or addition line of a state will occupy.
\<close>

definition hunk_state :: "string \<Rightarrow> DiffLocation list \<Rightarrow> int \<Rightarrow> parser_state" where
  "hunk_state path locs n = \<lparr> locations = locs, current_file = Some path,
      current_line_number = Some 1, lines_since_hunk = n \<rparr>"

definition cursor :: "parser_state \<Rightarrow> int option" where
  "cursor st = map_option (\<lambda>start. start + lines_since_hunk st) (current_line_number st)"




section \<open>Notions used to prove that sanitizing twice changes nothing\<close>

text \<open>
  The redaction token, as the templates of \<^verbatim>\<open>sanitize_diff\<close> spell it.
\<close>

abbreviation tok :: string where "tok \<equiv> ''[REDACTED]''"

text \<open>
  A pattern without groups and without \<^verbatim>\<open>$\<close>, and the words such a pattern matches in
  full. What the matcher finds for such a pattern at the head of a text are the ways of
  splitting the text into a word the pattern matches and a rest.
\<close>

fun plain :: "rx \<Rightarrow> bool" where
  "plain (Lit l) = True"
| "plain (Chars p m n g) = True"
| "plain (Opt r) = plain r"
| "plain (Grp r) = False"
| "plain (Seq a b) = (plain a \<and> plain b)"
| "plain Eol = False"

fun accepts :: "rx \<Rightarrow> string \<Rightarrow> bool" where
  "accepts (Lit l) w = (w = l)"
| "accepts (Chars p m n g) w =
     (list_all p w \<and> m \<le> length w \<and> (case n of None \<Rightarrow> True | Some b \<Rightarrow> length w \<le> b))"
| "accepts (Opt r) w = (w = [] \<or> accepts r w)"
| "accepts (Grp r) w = accepts r w"
| "accepts (Seq a b) w =
     list_ex (\<lambda>i. accepts a (take i w) \<and> accepts b (drop i w)) [0 ..< Suc (length w)]"
| "accepts Eol w = False"

text \<open>
  The matches of a rule as triples: what is kept in front, what is replaced, what is kept
  behind; for a rule of one group nothing is kept. Then the rules of these two shapes whose
  groups are plain, the groups the matcher reports for a triple, and the replacement
  \<^verbatim>\<open>sanitize_diff\<close> chooses for a rule.
\<close>

fun part :: "rx \<Rightarrow> string \<Rightarrow> string \<Rightarrow> string \<Rightarrow> bool" where
  "part (Seq (Grp a) (Seq (Grp b) (Grp c))) g1 S g3 = (accepts a g1 \<and> accepts b S \<and> accepts c g3)"
| "part (Grp a) g1 S g3 = (g1 = [] \<and> accepts a S \<and> g3 = [])"
| "part r g1 S g3 = False"

fun ruleish :: "rx \<Rightarrow> bool" where
  "ruleish (Seq (Grp a) (Seq (Grp b) (Grp c))) = (plain a \<and> plain b \<and> plain c)"
| "ruleish (Grp a) = plain a"
| "ruleish r = False"

definition caps_of :: "rx \<Rightarrow> string \<Rightarrow> string \<Rightarrow> string \<Rightarrow> caps" where
  "caps_of r g1 S g3 = (if groups r = 3 then [Some g1, Some S, Some g3] else [Some S])"

definition repl_of :: "rx \<Rightarrow> caps \<Rightarrow> string" where
  "repl_of r = (if groups r = 3 then keep_ends else (\<lambda>cs. tok))"

text \<open>
  A text in which a rule has replaced some stretches: the characters it kept and the
  stretches it replaced, read before and after the replacement.
\<close>

datatype atom = Ret char | Ins string

fun atom_old :: "atom \<Rightarrow> string" where
  "atom_old (Ret c) = [c]"
| "atom_old (Ins S) = S"

fun atom_new :: "atom \<Rightarrow> string" where
  "atom_new (Ret c) = [c]"
| "atom_new (Ins S) = tok"

definition old_text :: "atom list \<Rightarrow> string" where
  "old_text as = concat (map atom_old as)"

definition new_text :: "atom list \<Rightarrow> string" where
  "new_text as = concat (map atom_new as)"

text \<open>
  A rule matches at the head of a text. A text is settled for a rule when every match of
  the rule, wherever it starts, already has the token in the place of the middle part:
  the rule changes nothing in such a text. A rule is solid when it has no empty match.
\<close>

definition matches_at :: "(string \<Rightarrow> string \<Rightarrow> string \<Rightarrow> bool) \<Rightarrow> string \<Rightarrow> bool" where
  "matches_at P s = (\<exists>g1 S g3 rest. P g1 S g3 \<and> s = g1 @ S @ g3 @ rest)"

definition settled :: "(string \<Rightarrow> string \<Rightarrow> string \<Rightarrow> bool) \<Rightarrow> string \<Rightarrow> bool" where
  "settled P s = (\<forall>pre g1 S g3 post. s = pre @ g1 @ S @ g3 @ post \<and> P g1 S g3 \<longrightarrow> S = tok)"

definition solid :: "(string \<Rightarrow> string \<Rightarrow> string \<Rightarrow> bool) \<Rightarrow> bool" where
  "solid P = (\<forall>g1 S g3. P g1 S g3 \<longrightarrow> g1 @ S @ g3 \<noteq> [])"

text \<open>
  What the scan of \<^verbatim>\<open>sub\<close> does with a solid rule, as a relation between the text and the
  kept and replaced stretches: where nothing matches one character is kept, where something
  matches the match is taken and the scan goes on behind it. And the same list as computed
  from the scan.
\<close>

inductive cut :: "(string \<Rightarrow> string \<Rightarrow> string \<Rightarrow> bool) \<Rightarrow> string \<Rightarrow> atom list \<Rightarrow> bool"
  for P :: "string \<Rightarrow> string \<Rightarrow> string \<Rightarrow> bool" where
  cut_end: "cut P [] []"
| cut_gap: "\<not> matches_at P (c # cs) \<Longrightarrow> cut P cs as \<Longrightarrow> cut P (c # cs) (Ret c # as)"
| cut_hit: "P g1 S g3 \<Longrightarrow> cut P rest as \<Longrightarrow>
            cut P (g1 @ S @ g3 @ rest) (map Ret g1 @ Ins S # map Ret g3 @ as)"

fun seg_atoms :: "seg \<Rightarrow> atom list" where
  "seg_atoms (Gap c) = [Ret c]"
| "seg_atoms (Hit cs m) =
     (if length cs = 3
      then map Ret (group_text cs 1) @ Ins (group_text cs 2) # map Ret (group_text cs 3)
      else [Ins m])"

definition atoms :: "rx \<Rightarrow> string \<Rightarrow> atom list" where
  "atoms r s = concat (map seg_atoms (scan r False s))"

text \<open>
  Every replaced stretch stands between two kept characters of given kinds; every replaced
  stretch has a given property.
\<close>

definition flanked :: "(char \<Rightarrow> bool) \<Rightarrow> (char \<Rightarrow> bool) \<Rightarrow> atom list \<Rightarrow> bool" where
  "flanked L R as = (\<forall>A S B. as = A @ Ins S # B \<longrightarrow>
      (A \<noteq> [] \<and> (\<exists>c. last A = Ret c \<and> L c)) \<and> (B \<noteq> [] \<and> (\<exists>c. hd B = Ret c \<and> R c)))"

definition inserted :: "(string \<Rightarrow> bool) \<Rightarrow> atom list \<Rightarrow> bool" where
  "inserted Q as = (\<forall>S. Ins S \<in> set as \<longrightarrow> Q S)"

text \<open>
  Quotes; the characters that are neither quotes nor brackets, and those that are moreover
  neither colon nor at-sign. The front part of a rule that ends with an opening quote: one
  quote, at the end, after at least one character that is neither a quote nor a bracket.
  A credential of a token rule: plain characters, one of which does not occur in the token.
  The front of a database rule: a scheme in lower case and \<^verbatim>\<open>://\<close>.
\<close>

definition is_quote :: "char \<Rightarrow> bool" where
  "is_quote c = (c = sq \<or> c = dq)"

definition okc :: "char \<Rightarrow> bool" where
  "okc c = (\<not> is_quote c \<and> c \<noteq> CHR ''['' \<and> c \<noteq> CHR '']'')"

definition bland :: "char \<Rightarrow> bool" where
  "bland c = (\<not> is_quote c \<and> c \<noteq> CHR ''['' \<and> c \<noteq> CHR '']'' \<and> c \<noteq> CHR '':'' \<and> c \<noteq> CHR ''@'')"

definition lead :: "string \<Rightarrow> bool" where
  "lead g = (\<exists>body q. g = body @ [q] \<and> is_quote q \<and> body \<noteq> []
      \<and> list_all (\<lambda>c. \<not> is_quote c \<and> c \<noteq> CHR ''['' \<and> c \<noteq> CHR '']'') body)"

definition pre_lead :: "string \<Rightarrow> bool" where
  "pre_lead g = (\<exists>body q. g = body @ [q] \<and> is_quote q \<and> list_all okc body)"

definition marked :: "string \<Rightarrow> bool" where
  "marked S = (S \<noteq> [] \<and> list_all bland S \<and> list_ex (\<lambda>c. c \<notin> set ''REDACTED'') S)"

definition lit_ok :: "string \<Rightarrow> bool" where
  "lit_ok lit = (\<exists>sch. lit = sch @ ''://'' \<and> sch \<noteq> [] \<and> list_all is_lower sch)"

text \<open>
  The four families of the shipped rules, by the triples they match: a quoted value of any
  content after a front part (\<^verbatim>\<open>famQ\<close>); a quoted value made of plain characters (\<^verbatim>\<open>famQL\<close>);
  a token that is matched as a whole (\<^verbatim>\<open>famT\<close>); the password of a database address
  (\<^verbatim>\<open>famD\<close>).
\<close>

definition famQ :: "(string \<Rightarrow> string \<Rightarrow> string \<Rightarrow> bool) \<Rightarrow> bool" where
  "famQ P = (\<exists>A. (\<forall>g. A g \<longrightarrow> lead g)
      \<and> P = (\<lambda>g1 S g3. A g1 \<and> list_all (\<lambda>c. \<not> is_quote c) S \<and> (\<exists>q. g3 = [q] \<and> is_quote q)))"

definition famQL :: "(string \<Rightarrow> string \<Rightarrow> string \<Rightarrow> bool) \<Rightarrow> bool" where
  "famQL P = (\<forall>g1 S g3. P g1 S g3 \<longrightarrow>
      lead g1 \<and> S \<noteq> [] \<and> list_all bland S \<and> (\<exists>q. g3 = [q] \<and> is_quote q))"

definition famT :: "(string \<Rightarrow> string \<Rightarrow> string \<Rightarrow> bool) \<Rightarrow> bool" where
  "famT P = (\<forall>g1 S g3. P g1 S g3 \<longrightarrow> g1 = [] \<and> g3 = [] \<and> marked S)"

definition famD :: "(string \<Rightarrow> string \<Rightarrow> string \<Rightarrow> bool) \<Rightarrow> bool" where
  "famD P = (\<exists>lit. lit_ok lit
      \<and> P = (\<lambda>g1 S g3. (\<exists>x. g1 = lit @ x @ '':'' \<and> x \<noteq> [] \<and> CHR '':'' \<notin> set x)
                \<and> S \<noteq> [] \<and> CHR ''@'' \<notin> set S \<and> g3 = ''@''))"

text \<open>
  What a rule of each family leaves behind: where its replaced stretches stand and what they
  held.
\<close>

definition kindQ :: "atom list \<Rightarrow> bool" where
  "kindQ as = flanked is_quote is_quote as"

definition kindQL :: "atom list \<Rightarrow> bool" where
  "kindQL as = (flanked is_quote is_quote as \<and> inserted (\<lambda>S. S \<noteq> [] \<and> list_all bland S) as)"

definition kindT :: "atom list \<Rightarrow> bool" where
  "kindT as = inserted marked as"

definition kindD :: "atom list \<Rightarrow> bool" where
  "kindD as = (flanked (\<lambda>c. c = CHR '':'') (\<lambda>c. c = CHR ''@'') as
      \<and> inserted (\<lambda>S. S \<noteq> [] \<and> CHR ''@'' \<notin> set S) as)"

text \<open>
  No match of the rule starts inside a token.
\<close>

definition no_inner :: "(string \<Rightarrow> string \<Rightarrow> string \<Rightarrow> bool) \<Rightarrow> bool" where
  "no_inner P = (\<forall>g1 S g3 rest t1 t2 v. P g1 S g3 \<and> t1 \<noteq> [] \<and> t2 \<noteq> [] \<and> t1 @ t2 = tok
      \<longrightarrow> g1 @ S @ g3 @ rest \<noteq> t2 @ v)"

text \<open>
  Two properties of a pattern that are read off its structure: every character of every
  word it matches has a given property; no word it matches is shorter than a given length.
\<close>

fun all_chars :: "(char \<Rightarrow> bool) \<Rightarrow> rx \<Rightarrow> bool" where
  "all_chars Q (Lit l) = list_all Q l"
| "all_chars Q (Chars p m n g) = (\<forall>c. p c \<longrightarrow> Q c)"
| "all_chars Q (Opt r) = all_chars Q r"
| "all_chars Q (Grp r) = all_chars Q r"
| "all_chars Q (Seq a b) = (all_chars Q a \<and> all_chars Q b)"
| "all_chars Q Eol = True"

fun minlen :: "rx \<Rightarrow> nat" where
  "minlen (Lit l) = length l"
| "minlen (Chars p m n g) = m"
| "minlen (Opt r) = 0"
| "minlen (Grp r) = minlen r"
| "minlen (Seq a b) = minlen a + minlen b"
| "minlen Eol = 0"

text \<open>
  The rules of each family; the rules that \<^verbatim>\<open>load_settings\<close> lists after the rules for quoted
  values of any content.
\<close>

definition isQ :: "rx \<Rightarrow> bool" where "isQ r = (ruleish r \<and> famQ (part r))"

definition isT :: "rx \<Rightarrow> bool" where "isT r = (ruleish r \<and> famT (part r))"

definition isD :: "rx \<Rightarrow> bool" where "isD r = (ruleish r \<and> famD (part r))"

definition isQL :: "rx \<Rightarrow> bool" where "isQL r = (ruleish r \<and> famQL (part r))"

definition later :: "rx \<Rightarrow> bool" where
  "later r = (isT r \<or> isD r \<or> isQL r)"

definition rule_ok :: "rx \<Rightarrow> bool" where
  "rule_ok r = (isQ r \<or> later r)"


section \<open>Credential detection\<close>

lemma detect_loop_acc:
  "detect_loop text acc ps = acc @ concat (map (\<lambda>p. credentials_of p text) ps)"
  by (induction ps arbitrary: acc) simp_all

text \<open>
  C10. \<^verbatim>\<open>detect_credentials\<close> runs every rule on the text it was given, not on what the
  rules before it left: its result is the concatenation of what each rule finds in that
  text. So one credential can be reported twice: in \<^verbatim>\<open>export PASSWORD="hunter2"\<close> the
  export rule and the bare-variable rule for \<^verbatim>\<open>PASSWORD\<close> both find \<^verbatim>\<open>hunter2\<close>, which ends up
  at indices 0 and 1. The sanitizer differs: its loop hands each rule the text produced by
  the rule before, in which the bare-variable rule finds only the redaction token.
\<close>

theorem detect_credentials_independent:
  "(\<forall>cfg text. detect_credentials cfg text =
       concat (map (\<lambda>p. credentials_of p text) (patterns cfg)))
   \<and> credentials_of (exported ''PASSWORD'') (''export PASSWORD='' @ [dq] @ ''hunter2'' @ [dq])
       = [Str ''hunter2'']
   \<and> credentials_of (variable ''PASSWORD'') (''export PASSWORD='' @ [dq] @ ''hunter2'' @ [dq])
       = [Str ''hunter2'']
   \<and> detect_credentials shipped (''export PASSWORD='' @ [dq] @ ''hunter2'' @ [dq])
       = [Str ''hunter2'', Str ''hunter2'']
   \<and> (\<forall>cfg s p ps. sanitize_loop cfg s (p # ps) = sanitize_loop cfg (apply_rule cfg p s) ps)
   \<and> credentials_of (variable ''PASSWORD'')
        (apply_rule shipped (exported ''PASSWORD'')
           (''export PASSWORD='' @ [dq] @ ''hunter2'' @ [dq]))
       = [Str ''[REDACTED]'']"
proof -
  have general: "\<forall>cfg text. detect_credentials cfg text =
       concat (map (\<lambda>p. credentials_of p text) (patterns cfg))"
    by (simp add: detect_credentials_def detect_loop_acc)
  have e1: "credentials_of (exported ''PASSWORD'')
       (''export PASSWORD='' @ [dq] @ ''hunter2'' @ [dq]) = [Str ''hunter2'']"
    by code_simp
  have e2: "credentials_of (variable ''PASSWORD'')
       (''export PASSWORD='' @ [dq] @ ''hunter2'' @ [dq]) = [Str ''hunter2'']"
    by code_simp
  have e3: "detect_credentials shipped (''export PASSWORD='' @ [dq] @ ''hunter2'' @ [dq])
       = [Str ''hunter2'', Str ''hunter2'']"
    by code_simp
  have e4: "credentials_of (variable ''PASSWORD'')
        (apply_rule shipped (exported ''PASSWORD'')
           (''export PASSWORD='' @ [dq] @ ''hunter2'' @ [dq])) = [Str ''[REDACTED]'']"
    by code_simp
  show ?thesis
    using general e1 e2 e3 e4 by simp
qed


section \<open>The parsing loop\<close>


lemma last_with_snoc: "last_with P (xs @ [x]) = (if P x then Some x else last_with P xs)"
  by (simp add: last_with_def)

lemma after_last_snoc: "after_last P (xs @ [x]) = (if P x then [] else after_last P xs @ [x])"
  by (simp add: after_last_def)

lemma last_with_Nil: "last_with P [] = None" by (simp add: last_with_def)
lemma after_last_Nil: "after_last P [] = []" by (simp add: after_last_def)

lemma last_with_append:
  "last_with P (a @ b) = (case last_with P b of None \<Rightarrow> last_with P a | Some h \<Rightarrow> Some h)"
  by (induction b rule: rev_induct) (simp_all add: last_with_snoc last_with_Nil flip: append_assoc)

lemma after_last_append:
  "last_with P b = Some h \<Longrightarrow> after_last P (a @ b) = after_last P b"
  by (induction b rule: rev_induct)
     (simp_all add: last_with_snoc last_with_Nil after_last_snoc flip: append_assoc split: if_splits)

lemma after_last_decomp: "\<exists>a. xs = a @ after_last P xs"
proof -
  have "rev xs = takeWhile (\<lambda>x. \<not> P x) (rev xs) @ dropWhile (\<lambda>x. \<not> P x) (rev xs)" by simp
  then have "xs = rev (dropWhile (\<lambda>x. \<not> P x) (rev xs)) @ after_last P xs"
    unfolding after_last_def by (metis rev_append rev_rev_ident)
  then show ?thesis ..
qed

lemma last_with_within:
  assumes "last_with P (after_last Q xs) = Some h"
  shows "last_with P xs = Some h" and "after_last P xs = after_last P (after_last Q xs)"
proof -
  obtain a where a: "xs = a @ after_last Q xs" using after_last_decomp by blast
  show "last_with P xs = Some h"
    using assms by (subst a) (simp add: last_with_append)
  show "after_last P xs = after_last P (after_last Q xs)"
    using assms after_last_append[of P "after_last Q xs" h a] a by simp
qed

lemma after_last_none: "\<not> list_ex P (after_last P xs)"
  by (auto simp: after_last_def list_ex_iff dest: set_takeWhileD)

lemma parse_lines_Nil: "parse_lines [] = initial_state"
  by (simp add: parse_lines_def)

lemma parse_lines_snoc: "parse_lines (ls @ [l]) = parse_step (parse_lines ls) l"
  by (simp add: parse_lines_def)

lemma rx_match_addition: "rx_match addition_pattern l = (if is_addition_line l then Some [] else None)"
  by (simp add: rx_match_def addition_pattern_def is_addition_line_def)

lemma rx_match_removal: "rx_match removal_pattern l = (if prefix ''-'' l then Some [] else None)"
  by (simp add: rx_match_def removal_pattern_def)

lemma step_file_header:
  "is_file_header l \<Longrightarrow> parse_step st l =
     st \<lparr> current_file := header_path l, current_line_number := None, lines_since_hunk := 0 \<rparr>"
  by (auto simp: parse_step_def is_file_header_def header_path_def split: option.splits)

lemma step_hunk_header:
  "is_hunk_header l \<Longrightarrow> parse_step st l =
     st \<lparr> current_line_number := Some (hunk_start l), lines_since_hunk := 0 \<rparr>"
  by (auto simp: parse_step_def is_hunk_header_def hunk_start_def split: option.splits)

lemma step_body:
  "\<not> is_file_header l \<Longrightarrow> \<not> is_hunk_header l \<Longrightarrow> parse_step st l = body_line st l"
  by (auto simp: parse_step_def is_file_header_def is_hunk_header_def split: option.splits)

lemma body_line_idle:
  "current_file st = None \<or> current_file st = Some [] \<or> current_line_number st = None \<Longrightarrow>
   body_line st l = st"
  by (auto simp: body_line_def split: option.splits)

lemma body_line_established:
  "current_file st = Some f \<Longrightarrow> f \<noteq> [] \<Longrightarrow> current_line_number st = Some n \<Longrightarrow>
   body_line st l =
     (if is_addition_line l
      then st \<lparr> locations := locations st @
                  [\<lparr> file_path = f, line_number = n + lines_since_hunk st,
                     content = drop 1 l, is_addition = True \<rparr>],
                lines_since_hunk := lines_since_hunk st + 1 \<rparr>
      else if is_context_line l then st \<lparr> lines_since_hunk := lines_since_hunk st + 1 \<rparr>
      else st)"
  by (cases l)
     (auto simp: body_line_def rx_match_addition rx_match_removal is_context_line_def
        is_addition_line_def)

lemma body_line_fields:
  "current_file (body_line st l) = current_file st"
  "current_line_number (body_line st l) = current_line_number st"
  by (auto simp: body_line_def split: option.splits)

lemma current_file_of_lines:
  "current_file (parse_lines pre) =
     (case last_with is_file_header pre of None \<Rightarrow> None | Some f \<Rightarrow> header_path f)"
proof (induction pre rule: rev_induct)
  case Nil
  show ?case by (simp add: parse_lines_Nil initial_state_def last_with_Nil)
next
  case (snoc x xs)
  show ?case
  proof (cases "is_file_header x")
    case True
    then show ?thesis by (simp add: parse_lines_snoc step_file_header last_with_snoc)
  next
    case nf: False
    show ?thesis
    proof (cases "is_hunk_header x")
      case True
      then show ?thesis using nf snoc by (simp add: parse_lines_snoc step_hunk_header last_with_snoc)
    next
      case False
      then show ?thesis using nf snoc
        by (simp add: parse_lines_snoc step_body last_with_snoc body_line_fields)
    qed
  qed
qed

lemma hunk_not_file: "is_hunk_header x \<Longrightarrow> \<not> is_file_header x"
  by (simp add: is_hunk_header_def is_file_header_def)

lemma current_line_number_of_lines:
  "current_line_number (parse_lines pre) =
     (case last_with is_hunk_header (after_last is_file_header pre) of
        None \<Rightarrow> None | Some h \<Rightarrow> Some (hunk_start h))"
proof (induction pre rule: rev_induct)
  case Nil
  show ?case by (simp add: parse_lines_Nil initial_state_def last_with_Nil after_last_Nil)
next
  case (snoc x xs)
  show ?case
  proof (cases "is_file_header x")
    case True
    then show ?thesis
      by (simp add: parse_lines_snoc step_file_header after_last_snoc last_with_Nil)
  next
    case nf: False
    show ?thesis
    proof (cases "is_hunk_header x")
      case True
      then show ?thesis using nf
        by (simp add: parse_lines_snoc step_hunk_header after_last_snoc last_with_snoc)
    next
      case False
      then show ?thesis using nf snoc
        by (simp add: parse_lines_snoc step_body after_last_snoc last_with_snoc body_line_fields)
    qed
  qed
qed

lemma lines_since_hunk_of_lines:
  "current_file (parse_lines pre) = Some f \<Longrightarrow> f \<noteq> [] \<Longrightarrow>
   current_line_number (parse_lines pre) = Some n \<Longrightarrow>
   lines_since_hunk (parse_lines pre) =
     int (length (filter counted (after_last is_hunk_header (after_last is_file_header pre))))"
proof (induction pre rule: rev_induct)
  case Nil
  then show ?case by (simp add: parse_lines_Nil initial_state_def)
next
  case (snoc x xs)
  show ?case
  proof (cases "is_file_header x")
    case True
    then show ?thesis using snoc.prems by (simp add: parse_lines_snoc step_file_header)
  next
    case nf: False
    show ?thesis
    proof (cases "is_hunk_header x")
      case True
      then show ?thesis using nf
        by (simp add: parse_lines_snoc step_hunk_header after_last_snoc)
    next
      case False
      have step: "parse_lines (xs @ [x]) = body_line (parse_lines xs) x"
        using nf False by (simp add: parse_lines_snoc step_body)
      have f: "current_file (parse_lines xs) = Some f"
        and n: "current_line_number (parse_lines xs) = Some n"
        using snoc.prems by (simp_all add: step body_line_fields)
      have ih: "lines_since_hunk (parse_lines xs) =
          int (length (filter counted (after_last is_hunk_header (after_last is_file_header xs))))"
        using snoc.IH f n snoc.prems(2) by simp
      have c: "counted x \<longleftrightarrow> is_addition_line x \<or> is_context_line x"
        by (simp add: counted_def)
      show ?thesis
        using nf False ih
        by (auto simp: step body_line_established[OF f snoc.prems(2) n] after_last_snoc c)
    qed
  qed
qed

lemma step_locations:
  "locations (parse_step st l) = locations st \<or>
   (\<exists>f n. current_file st = Some f \<and> f \<noteq> [] \<and> current_line_number st = Some n
      \<and> \<not> is_file_header l \<and> \<not> is_hunk_header l \<and> is_addition_line l
      \<and> locations (parse_step st l) = locations st @
           [\<lparr> file_path = f, line_number = n + lines_since_hunk st,
              content = drop 1 l, is_addition = True \<rparr>])"
proof (cases "is_file_header l")
  case True
  then show ?thesis by (simp add: step_file_header)
next
  case nf: False
  show ?thesis
  proof (cases "is_hunk_header l")
    case True
    then show ?thesis by (simp add: step_hunk_header)
  next
    case nh: False
    show ?thesis
    proof (cases "current_file st = None \<or> current_file st = Some [] \<or> current_line_number st = None")
      case True
      then show ?thesis using nf nh by (simp add: step_body body_line_idle)
    next
      case False
      then obtain f n where "current_file st = Some f" "f \<noteq> []" "current_line_number st = Some n"
        by auto
      then show ?thesis using nf nh by (simp add: step_body body_line_established)
    qed
  qed
qed

lemma emitted_index:
  "k < length (locations (parse_lines ls)) \<Longrightarrow>
   \<exists>pre l post. ls = pre @ l # post \<and> length (locations (parse_lines pre)) = k
     \<and> locations (parse_lines (pre @ [l])) =
         locations (parse_lines pre) @ [locations (parse_lines ls) ! k]"
proof (induction ls rule: rev_induct)
  case Nil
  then show ?case by (simp add: parse_lines_Nil initial_state_def)
next
  case (snoc x xs)
  show ?case
  proof (cases "k < length (locations (parse_lines xs))")
    case True
    from snoc.IH[OF True] obtain pre l post where d: "xs = pre @ l # post"
      "length (locations (parse_lines pre)) = k"
      "locations (parse_lines (pre @ [l])) =
         locations (parse_lines pre) @ [locations (parse_lines xs) ! k]" by blast
    have "locations (parse_lines (xs @ [x])) ! k = locations (parse_lines xs) ! k"
      using step_locations[of "parse_lines xs" x] True
      by (auto simp: parse_lines_snoc nth_append)
    then show ?thesis using d
      by (intro exI[of _ pre] exI[of _ l] exI[of _ "post @ [x]"]) simp
  next
    case False
    then have "locations (parse_lines (xs @ [x])) \<noteq> locations (parse_lines xs)"
      using snoc.prems by auto
    then obtain loc where loc: "locations (parse_lines (xs @ [x])) = locations (parse_lines xs) @ [loc]"
      using step_locations[of "parse_lines xs" x] by (auto simp: parse_lines_snoc)
    then have k: "k = length (locations (parse_lines xs))" using False snoc.prems by simp
    show ?thesis using loc k
      by (intro exI[of _ xs] exI[of _ x] exI[of _ "[]"]) simp
  qed
qed


lemma parse_diff_lines: "d \<noteq> [] \<Longrightarrow> parse_diff (Some d) = locations (parse_lines (split_nl d))"
  by (simp add: parse_diff_def parse_lines_def)

lemma emission:
  assumes "locations (parse_lines (pre @ [l])) = locations (parse_lines pre) @ [loc]"
  shows "\<exists>f fl h. last_with is_file_header pre = Some fl \<and> header_path fl = Some f
     \<and> last_with is_hunk_header (after_last is_file_header pre) = Some h
     \<and> \<not> is_file_header l \<and> \<not> is_hunk_header l \<and> is_addition_line l
     \<and> loc = \<lparr> file_path = f,
               line_number = hunk_start h + int (length (filter counted
                  (after_last is_hunk_header (after_last is_file_header pre)))),
               content = drop 1 l, is_addition = True \<rparr>"
proof -
  let ?st = "parse_lines pre"
  from assms step_locations[of ?st l]
  obtain f n where e: "current_file ?st = Some f" "f \<noteq> []" "current_line_number ?st = Some n"
      "\<not> is_file_header l" "\<not> is_hunk_header l" "is_addition_line l"
      "loc = \<lparr> file_path = f, line_number = n + lines_since_hunk ?st,
               content = drop 1 l, is_addition = True \<rparr>"
    by (auto simp: parse_lines_snoc)
  from e(1) obtain fl where fl: "last_with is_file_header pre = Some fl" "header_path fl = Some f"
    by (auto simp: current_file_of_lines split: option.splits)
  from e(3) obtain h where h: "last_with is_hunk_header (after_last is_file_header pre) = Some h"
      "hunk_start h = n"
    by (auto simp: current_line_number_of_lines split: option.splits)
  show ?thesis
    using e fl h lines_since_hunk_of_lines[OF e(1) e(2) e(3)] by simp
qed

text \<open>
  C3. Every location that \<^verbatim>\<open>parse_diff\<close> returns was emitted by an addition line \<open>l\<close> of the
  diff, when exactly \<open>k\<close> locations had been emitted by the lines \<open>pre\<close> before it; its
  line number is the new-file start declared by the most recent hunk header \<open>h\<close> among
  \<open>pre\<close>, plus the number of addition and context lines between \<open>h\<close> and \<open>l\<close>.
\<close>

theorem line_number_from_hunk:
  assumes "k < length (parse_diff (Some d))"
  shows "\<exists>pre l post h. split_nl d = pre @ l # post
      \<and> length (locations (parse_lines pre)) = k
      \<and> locations (parse_lines (pre @ [l])) = locations (parse_lines pre) @ [parse_diff (Some d) ! k]
      \<and> is_addition_line l
      \<and> last_with is_hunk_header pre = Some h
      \<and> line_number (parse_diff (Some d) ! k) =
          hunk_start h + int (length (filter counted (after_last is_hunk_header pre)))"
proof -
  have ne: "d \<noteq> []" using assms by (auto simp: parse_diff_def)
  from assms obtain pre l post where d: "split_nl d = pre @ l # post"
      "length (locations (parse_lines pre)) = k"
      "locations (parse_lines (pre @ [l])) =
         locations (parse_lines pre) @ [parse_diff (Some d) ! k]"
    using emitted_index[of k "split_nl d"] by (auto simp: parse_diff_lines[OF ne])
  from emission[OF d(3)] obtain h where h:
      "last_with is_hunk_header (after_last is_file_header pre) = Some h"
      "is_addition_line l"
      "line_number (parse_diff (Some d) ! k) = hunk_start h + int (length (filter counted
                  (after_last is_hunk_header (after_last is_file_header pre))))"
    by auto
  show ?thesis
    using d h last_with_within[OF h(1)]
    by (intro exI[of _ pre] exI[of _ l] exI[of _ post] exI[of _ h]) simp
qed

theorem line_number_from_hunk_witness:
  "0 < length (parse_diff (Some sample_diff))
   \<and> (\<exists>pre l post h. split_nl sample_diff = pre @ l # post
      \<and> length (locations (parse_lines pre)) = 0
      \<and> locations (parse_lines (pre @ [l])) =
           locations (parse_lines pre) @ [parse_diff (Some sample_diff) ! 0]
      \<and> is_addition_line l
      \<and> last_with is_hunk_header pre = Some h
      \<and> line_number (parse_diff (Some sample_diff) ! 0) =
          hunk_start h + int (length (filter counted (after_last is_hunk_header pre))))"
proof -
  have h: "0 < length (parse_diff (Some sample_diff))" by code_simp
  show ?thesis using h line_number_from_hunk[OF h] by simp
qed

lemma idle_after_header:
  assumes "is_file_header f" "\<forall>l \<in> set post. \<not> is_hunk_header l"
  shows "current_line_number (parse_lines (pre @ f # post)) = None
       \<and> locations (parse_lines (pre @ f # post)) = locations (parse_lines pre)"
  using assms(2)
proof (induction post rule: rev_induct)
  case Nil
  have "parse_lines (pre @ [f]) = parse_step (parse_lines pre) f" by (rule parse_lines_snoc)
  then show ?case using assms(1) by (simp add: step_file_header)
next
  case (snoc x xs)
  then have ih: "current_line_number (parse_lines (pre @ f # xs)) = None"
      "locations (parse_lines (pre @ f # xs)) = locations (parse_lines pre)"
    and nh: "\<not> is_hunk_header x" by simp_all
  have s: "parse_lines (pre @ f # xs @ [x]) = parse_step (parse_lines (pre @ f # xs)) x"
    using parse_lines_snoc[of "pre @ f # xs" x] by simp
  show ?case
  proof (cases "is_file_header x")
    case True
    then show ?thesis using ih by (simp add: s step_file_header)
  next
    case False
    then show ?thesis using ih nh by (simp add: s step_body body_line_idle)
  qed
qed

text \<open>
  C8. A file header sets the line cursor back to unset (and emits nothing); every location
  returned was emitted after a file header and, later than the most recent file header, a
  hunk header; and when the lines after a file header contain no hunk header, nothing is
  emitted from that header on: all locations of the diff come from the lines before it.
\<close>

theorem no_location_without_headers:
  "(\<forall>st line. is_file_header line \<longrightarrow>
       current_line_number (parse_step st line) = None
     \<and> lines_since_hunk (parse_step st line) = 0
     \<and> locations (parse_step st line) = locations st)
   \<and> (\<forall>d k. k < length (parse_diff (Some d)) \<longrightarrow>
       (\<exists>pre l post f h. split_nl d = pre @ l # post
          \<and> length (locations (parse_lines pre)) = k
          \<and> locations (parse_lines (pre @ [l])) =
               locations (parse_lines pre) @ [parse_diff (Some d) ! k]
          \<and> last_with is_file_header pre = Some f
          \<and> header_path f = Some (file_path (parse_diff (Some d) ! k))
          \<and> last_with is_hunk_header (after_last is_file_header pre) = Some h))
   \<and> (\<forall>d pre f post. split_nl d = pre @ f # post \<and> is_file_header f
          \<and> (\<forall>l \<in> set post. \<not> is_hunk_header l) \<longrightarrow>
        parse_diff (Some d) = locations (parse_lines pre))"
proof (intro conjI allI impI)
  fix st line assume "is_file_header line"
  then show "current_line_number (parse_step st line) = None"
    "lines_since_hunk (parse_step st line) = 0"
    "locations (parse_step st line) = locations st"
    by (simp_all add: step_file_header)
next
  fix d k assume k: "k < length (parse_diff (Some d))"
  then have ne: "d \<noteq> []" by (auto simp: parse_diff_def)
  from k obtain pre l post where d: "split_nl d = pre @ l # post"
      "length (locations (parse_lines pre)) = k"
      "locations (parse_lines (pre @ [l])) =
         locations (parse_lines pre) @ [parse_diff (Some d) ! k]"
    using emitted_index[of k "split_nl d"] by (auto simp: parse_diff_lines[OF ne])
  from emission[OF d(3)] obtain f fl h where
      "last_with is_file_header pre = Some fl" "header_path fl = Some f"
      "last_with is_hunk_header (after_last is_file_header pre) = Some h"
      "file_path (parse_diff (Some d) ! k) = f"
    by auto
  then show "\<exists>pre l post f h. split_nl d = pre @ l # post
          \<and> length (locations (parse_lines pre)) = k
          \<and> locations (parse_lines (pre @ [l])) =
               locations (parse_lines pre) @ [parse_diff (Some d) ! k]
          \<and> last_with is_file_header pre = Some f
          \<and> header_path f = Some (file_path (parse_diff (Some d) ! k))
          \<and> last_with is_hunk_header (after_last is_file_header pre) = Some h"
    using d by blast
next
  fix d pre f post
  assume a: "split_nl d = pre @ f # post \<and> is_file_header f
          \<and> (\<forall>l \<in> set post. \<not> is_hunk_header l)"
  have "d \<noteq> []"
  proof
    assume "d = []"
    then have "f = []" using a by (auto simp: Cons_eq_append_conv append_eq_Cons_conv)
    then show False using a by (simp add: is_file_header_def rx_match_def file_header_pattern_def)
  qed
  then show "parse_diff (Some d) = locations (parse_lines pre)"
    using a idle_after_header[of f post pre] by (simp add: parse_diff_lines)
qed


section \<open>The matcher and the scan\<close>

lemma reps_bounds: "j \<in> set (reps p m n g s) \<Longrightarrow> m \<le> j \<and> j \<le> length s"
proof -
  assume a: "j \<in> set (reps p m n g s)"
  have "length (takeWhile p s) \<le> length s" by (rule length_takeWhile_le)
  then show ?thesis using a
    by (auto simp: reps_def Let_def split: option.splits if_splits)
qed

lemma ms_suffix: "(cs', s') \<in> set (ms r (cs, s)) \<Longrightarrow> suffix s' s"
proof (induction r arbitrary: cs s cs' s')
  case (Lit l)
  then show ?case by (auto simp: suffix_drop split: if_splits)
next
  case (Chars p m n g)
  then show ?case by (auto simp: suffix_drop)
next
  case (Opt r)
  then show ?case by auto
next
  case (Grp r)
  then show ?case by auto
next
  case (Seq a b)
  then show ?case by (fastforce intro: suffix_order.trans)
next
  case Eol
  then show ?case by (auto split: if_splits)
qed

lemma ms_caps:
  "(cs', s') \<in> set (ms r (cs, s)) \<Longrightarrow>
   length cs' = length cs + groups r \<and> take (length cs) cs' = cs"
proof (induction r arbitrary: cs s cs' s')
  case (Lit l)
  then show ?case by (auto split: if_splits)
next
  case (Chars p m n g)
  then show ?case by auto
next
  case (Opt r)
  then show ?case by auto
next
  case (Grp r)
  then show ?case by fastforce
next
  case (Seq a b)
  from Seq.prems obtain c1 s1 where 1: "(c1, s1) \<in> set (ms a (cs, s))"
    and 2: "(cs', s') \<in> set (ms b (c1, s1))" by auto
  from Seq.IH(1)[OF 1] Seq.IH(2)[OF 2] show ?case
    by auto
next
  case Eol
  then show ?case by (auto split: if_splits)
qed

lemma ms_group_free:
  assumes "groups r = 0" "(cs', s') \<in> set (ms r (cs, s))"
  shows "cs' = cs"
  using ms_caps[OF assms(2)] assms(1) by (metis add.right_neutral order_refl take_all)

lemma ms_Grp_free:
  assumes "groups a = 0" "(cs', s') \<in> set (ms (Grp a) (cs, s))"
  shows "\<exists>u. s = u @ s' \<and> cs' = cs @ [Some u] \<and> (cs, s') \<in> set (ms a (cs, s))"
proof -
  from assms(2) obtain c1 where 1: "(c1, s') \<in> set (ms a (cs, s))"
    and 2: "cs' = take (length cs) c1 @ Some (take (length s - length s') s) # drop (length cs) c1"
    by auto
  have c1: "c1 = cs" using ms_group_free[OF assms(1) 1] .
  from ms_suffix[OF 1] obtain u where u: "s = u @ s'" by (auto simp: suffix_def)
  show ?thesis using 1 2 c1 u by auto
qed

lemma ms_Seq_iff: "x \<in> set (ms (Seq a b) st) \<longleftrightarrow> (\<exists>y \<in> set (ms a st). x \<in> set (ms b y))"
  by (cases st) auto

lemma ms_three_part:
  assumes "three_part r" "(cs', s') \<in> set (ms r ([], s))"
  shows "\<exists>g1 g2 g3. cs' = [Some g1, Some g2, Some g3] \<and> s = g1 @ g2 @ g3 @ s'"
proof -
  from assms(1) obtain a b c where r: "r = Seq (Grp a) (Seq (Grp b) (Grp c))"
    and g: "groups a = 0" "groups b = 0" "groups c = 0"
    by (induction r rule: three_part.induct) auto
  from assms(2) obtain st1 st2 where 1: "st1 \<in> set (ms (Grp a) ([], s))"
    and 2: "st2 \<in> set (ms (Grp b) st1)" and 3: "(cs', s') \<in> set (ms (Grp c) st2)"
    unfolding r ms_Seq_iff by blast
  obtain c1 s1 c2 s2 where st: "st1 = (c1, s1)" "st2 = (c2, s2)" by (cases st1, cases st2) auto
  from ms_Grp_free[OF g(1) 1[unfolded st]] obtain g1 where a: "s = g1 @ s1" "c1 = [Some g1]" by auto
  from ms_Grp_free[OF g(2) 2[unfolded st]] obtain g2 where b: "s1 = g2 @ s2" "c2 = c1 @ [Some g2]" by auto
  from ms_Grp_free[OF g(3) 3[unfolded st]] obtain g3 where c: "s2 = g3 @ s'" "cs' = c2 @ [Some g3]" by auto
  show ?thesis using a b c by auto
qed


declare scan.simps [simp del]

lemma match_here_filter:
  assumes "match_here r adv s = Some (cs, rest)"
  shows "(cs, rest) \<in> set (ms r ([], s)) \<and> (if adv then length rest < length s else True)"
proof -
  obtain ys where "(cs, rest) # ys =
      filter (\<lambda>(cs, rest). if adv then length rest < length s else True) (ms r ([], s))"
    using assms by (auto simp: match_here_def split: list.splits)
  from Cons_eq_filterD[OF this] show ?thesis by auto
qed

lemma match_here_in: "match_here r adv s = Some (cs, rest) \<Longrightarrow> (cs, rest) \<in> set (ms r ([], s))"
  using match_here_filter by blast

lemma match_here_advances: "match_here r True s = Some (cs, rest) \<Longrightarrow> length rest < length s"
  using match_here_filter[of r True s cs rest] by simp

lemma match_here_rest: "match_here r adv s = Some (cs, rest) \<Longrightarrow> \<exists>m. s = m @ rest"
  using ms_suffix[OF match_here_in] by (auto simp: suffix_def)

lemma scan_text: "concat (map seg_text (scan r adv s)) = s"
proof (induction r adv s rule: scan.induct)
  case (1 r adv s)
  show ?case
  proof (cases "match_here r adv s")
    case None
    then show ?thesis using 1(1) by (subst scan.simps) (auto split: list.splits)
  next
    case (Some x)
    obtain cs rest where x: "x = (cs, rest)" by (cases x)
    from match_here_rest[OF Some[unfolded x]] obtain m where m: "s = m @ rest" by blast
    show ?thesis
    proof (cases "length rest < length s")
      case True
      then show ?thesis using Some x m 1(2)[OF Some x[symmetric] True]
        by (subst scan.simps) simp
    next
      case False
      then have adv: "\<not> adv" using match_here_advances[of r s cs rest] Some x by (cases adv) auto
      show ?thesis using Some x False adv 1(3)[OF Some x[symmetric] False adv]
        by (subst scan.simps) simp
    qed
  qed
qed

lemma scan_hit:
  "Hit cs m \<in> set (scan r adv s) \<Longrightarrow> \<exists>s0 rest. (cs, rest) \<in> set (ms r ([], s0)) \<and> s0 = m @ rest"
proof (induction r adv s rule: scan.induct)
  case (1 r adv s)
  show ?case
  proof (cases "match_here r adv s")
    case None
    then show ?thesis using 1(1) 1(4) by (subst (asm) scan.simps) (auto split: list.splits)
  next
    case (Some x)
    obtain c0 rest where x: "x = (c0, rest)" by (cases x)
    from match_here_rest[OF Some[unfolded x]] obtain m0 where m0: "s = m0 @ rest" by blast
    have here: "(c0, rest) \<in> set (ms r ([], s))" using match_here_in Some x by simp
    show ?thesis
    proof (cases "length rest < length s")
      case True
      have "Hit cs m = Hit c0 m0 \<or> Hit cs m \<in> set (scan r False rest)"
        using 1(4) Some x True m0 by (subst (asm) scan.simps) auto
      then show ?thesis using here m0 1(2)[OF Some x[symmetric] True] by auto
    next
      case False
      then have adv: "\<not> adv" using match_here_advances[of r s c0 rest] Some x by (cases adv) auto
      have r0: "rest = s" using m0 False by simp
      have "Hit cs m = Hit c0 [] \<or> Hit cs m \<in> set (scan r True s)"
        using 1(4) Some x False adv by (subst (asm) scan.simps) auto
      then show ?thesis using here r0 1(3)[OF Some x[symmetric] False adv] by auto
    qed
  qed
qed

lemma three_part_groups: "three_part r \<Longrightarrow> groups r = 3"
  by (induction r rule: three_part.induct) auto

lemma one_part_groups: "one_part r \<Longrightarrow> groups r = 1"
  by (induction r rule: one_part.induct) auto

lemma three_part_hit:
  assumes "three_part r" "Hit cs m \<in> set (scan r adv s)"
  shows "\<exists>g1 g2 g3. cs = [Some g1, Some g2, Some g3] \<and> m = g1 @ g2 @ g3"
proof -
  from scan_hit[OF assms(2)] obtain rest where "(cs, rest) \<in> set (ms r ([], m @ rest))" by blast
  from ms_three_part[OF assms(1) this] show ?thesis by auto
qed

lemma group_text_3:
  "group_text [Some g1, Some g2, Some g3] (Suc 0) = g1"
  "group_text [Some g1, Some g2, Some g3] 2 = g2"
  "group_text [Some g1, Some g2, Some g3] 3 = g3"
  by (simp_all add: group_text_def group_def numeral_2_eq_2 numeral_3_eq_3)




lemma shipped_shapes: "list_all (\<lambda>r. three_part r \<or> one_part r) (patterns shipped)"
  by (simp add: shipped_def assigned_def exported_def variable_def token_def db_url_def
      aws_key_def jwt_def assigned_long_def ws_star_def ws_plus_def w_star_def sep_def
      quote_def unquoted_def)






section \<open>Sanitization and newlines\<close>

lemma count_concat_le:
  "(\<And>x. x \<in> set xs \<Longrightarrow> count_list (f x) c \<le> count_list (g x) c) \<Longrightarrow>
   count_list (concat (map f xs)) c \<le> count_list (concat (map g xs)) c"
  by (induction xs) (simp_all add: add_mono)

lemma split_nl_nonempty: "split_nl s \<noteq> []"
  by (induction s) (auto split: list.splits)

lemma split_nl_length: "length (split_nl s) = Suc (count_list s nl)"
  by (induction s) (auto split: list.splits simp: split_nl_nonempty)

lemma sub_count:
  assumes "\<And>cs m. Hit cs m \<in> set (scan r False s) \<Longrightarrow> count_list (repl cs) nl \<le> count_list m nl"
  shows "count_list (sub r repl s) nl \<le> count_list s nl"
proof -
  let ?f = "\<lambda>g. case g of Gap c \<Rightarrow> [c] | Hit cs m \<Rightarrow> repl cs"
  have "count_list (concat (map ?f (scan r False s))) nl
        \<le> count_list (concat (map seg_text (scan r False s))) nl"
  proof (rule count_concat_le)
    fix x assume mem: "x \<in> set (scan r False s)"
    show "count_list (?f x) nl \<le> count_list (seg_text x) nl"
    proof (cases x)
      case (Gap c)
      then show ?thesis by simp
    next
      case (Hit cs m)
      then show ?thesis using assms[of cs m] mem by simp
    qed
  qed
  then show ?thesis by (simp only: sub_def scan_text)
qed

lemma token_no_newline: "count_list ''[REDACTED]'' nl = 0"
  by simp

lemma apply_rule_count:
  assumes "three_part r \<or> one_part r"
  shows "count_list (apply_rule cfg r s) nl \<le> count_list s nl"
proof (cases "three_part r")
  case True
  have "count_list (sub r keep_ends s) nl \<le> count_list s nl"
  proof (rule sub_count)
    fix cs m assume "Hit cs m \<in> set (scan r False s)"
    from three_part_hit[OF True this] obtain g1 g2 g3
      where "cs = [Some g1, Some g2, Some g3]" "m = g1 @ g2 @ g3" by blast
    then show "count_list (keep_ends cs) nl \<le> count_list m nl"
      by (simp add: keep_ends_def group_text_3)
  qed
  then show ?thesis using three_part_groups[OF True] by (simp add: apply_rule_def)
next
  case False
  then have o: "one_part r" using assms by simp
  have "count_list (sub r (\<lambda>cs. ''[REDACTED]'') s) nl \<le> count_list s nl"
    by (rule sub_count) simp
  then show ?thesis using one_part_groups[OF o] by (simp add: apply_rule_def)
qed

lemma sanitize_loop_count:
  "list_all (\<lambda>r. three_part r \<or> one_part r) ps \<Longrightarrow>
   count_list (sanitize_loop cfg s ps) nl \<le> count_list s nl"
proof (induction ps arbitrary: s)
  case Nil
  then show ?case by simp
next
  case (Cons p ps)
  then have "count_list (sanitize_loop cfg (apply_rule cfg p s) ps) nl
        \<le> count_list (apply_rule cfg p s) nl" by simp
  also have "\<dots> \<le> count_list s nl" using Cons.prems by (simp add: apply_rule_count)
  finally show ?case by simp
qed

text \<open>
  C2, as amended. Sanitizing a text with the shipped rules never gives more lines than the
  text had: a rule puts its prefix group, \<^verbatim>\<open>[REDACTED]\<close> and its suffix group in the place of a
  match, which adds no newline; the newlines inside the replaced credential are lost.
\<close>

theorem sanitize_never_adds_lines:
  "length (split_nl (sanitize_diff shipped (Some t))) \<le> length (split_nl t)"
  using sanitize_loop_count[OF shipped_shapes, of shipped t]
  by (simp add: sanitize_diff_def split_nl_length)

lemma joined_lines: "sanitize_diff shipped (Some (''key='' @ [sq, nl, sq]))
    = ''key='' @ [sq] @ ''[REDACTED]'' @ [sq]"
  by code_simp

text \<open>
  C2 as stated fails: in \<^verbatim>\<open>key='\<close>, newline, \<^verbatim>\<open>'\<close> the class \<^verbatim>\<open>[^'\"]*\<close> of the rule for \<^verbatim>\<open>key\<close> takes
  the newline as the credential, and the two lines become the one line \<^verbatim>\<open>key='[REDACTED]'\<close>.
\<close>

theorem sanitize_line_count_counterexample:
  "\<not> (\<forall>t. length (split_nl (sanitize_diff shipped (Some t))) = length (split_nl t))"
proof
  assume "\<forall>t. length (split_nl (sanitize_diff shipped (Some t))) = length (split_nl t)"
  then have "length (split_nl (sanitize_diff shipped (Some (''key='' @ [sq, nl, sq]))))
      = length (split_nl (''key='' @ [sq, nl, sq]))" by blast
  then show False unfolding joined_lines by simp
qed


section \<open>Sanitization and line numbers\<close>

lemma ms_len: "y \<in> set (ms r x) \<Longrightarrow> length (fst y) = length (fst x) + groups r"
  using ms_caps[of "fst y" "snd y" r "fst x" "snd x"] by simp

lemma ms_Chars_consumes:
  assumes "(cs', s') \<in> set (ms (Chars p (Suc m) n g) (cs, s))"
  shows "length s' < length s"
proof -
  from assms obtain j where j: "j \<in> set (reps p (Suc m) n g s)" "s' = drop j s" by auto
  from reps_bounds[OF j(1)] have "Suc m \<le> j" "j \<le> length s" by auto
  then show ?thesis using j(2) by simp
qed

lemma rx_match_in: "rx_match r s = Some m \<Longrightarrow> \<exists>rest. (m, rest) \<in> set (ms r ([], s))"
  by (auto simp: rx_match_def split: list.splits prod.splits)

lemma lazy_any_result:
  assumes "y \<in> set (ms lazy_any x)"
  shows "\<exists>u. u \<noteq> [] \<and> fst y = fst x @ [Some u]"
proof -
  obtain cs s cs' s' where x: "x = (cs, s)" and y: "y = (cs', s')" by (cases x, cases y) auto
  have g: "groups (Chars any_char 1 None False) = 0" by simp
  from ms_Grp_free[OF g] assms[unfolded x y lazy_any_def]
  obtain u where u: "s = u @ s'" "cs' = cs @ [Some u]"
      "(cs, s') \<in> set (ms (Chars any_char 1 None False) (cs, s))" by blast
  from u(3) have "length s' < length s" using ms_Chars_consumes[of cs s' any_char 0] by simp
  then have "u \<noteq> []" using u(1) by auto
  then show ?thesis using u(2) x y by simp
qed

lemma header_path_nonempty:
  assumes "is_file_header l"
  shows "\<exists>f. header_path l = Some f \<and> f \<noteq> []"
proof -
  from assms obtain m where m: "rx_match file_header_pattern l = Some m"
    by (auto simp: is_file_header_def)
  from rx_match_in[OF m] obtain rest where
    "(m, rest) \<in> set (ms file_header_pattern ([], l))" by blast
  then obtain y1 y2 y3 y4 y5 y6 y7 y8 where y:
      "y1 \<in> set (ms (Lit ''diff --git a'') ([], l))"
      "y2 \<in> set (ms opt_redacted y1)"
      "y3 \<in> set (ms (Lit ''/'') y2)"
      "y4 \<in> set (ms lazy_any y3)"
      "y5 \<in> set (ms (Lit '' b'') y4)"
      "y6 \<in> set (ms opt_redacted y5)"
      "y7 \<in> set (ms (Lit ''/'') y6)"
      "y8 \<in> set (ms lazy_any y7)"
      "(m, rest) \<in> set (ms Eol y8)"
    unfolding file_header_pattern_def seqs.simps ms_Seq_iff by blast
  have e: "y8 = (m, rest)" using y(9) by (cases y8) (auto split: if_splits)
  have "length (fst y7) = 1"
    using ms_len[OF y(1)] ms_len[OF y(2)] ms_len[OF y(3)] ms_len[OF y(4)] ms_len[OF y(5)]
      ms_len[OF y(6)] ms_len[OF y(7)]
    by (simp add: opt_redacted_def lazy_any_def)
  moreover from lazy_any_result[OF y(8)] obtain u where "u \<noteq> []" "m = fst y7 @ [Some u]"
    using e by auto
  ultimately have "group m 2 = Some u \<and> u \<noteq> []"
    by (cases "fst y7") (auto simp: group_def)
  then show ?thesis using m by (simp add: header_path_def)
qed

lemma empty_line_kind: "\<not> is_file_header []" "\<not> is_hunk_header []"
  by (simp_all add: is_file_header_def is_hunk_header_def rx_match_def file_header_pattern_def
      hunk_header_pattern_def)

lemma parse_diff_all: "parse_diff (Some s) = locations (parse_lines (split_nl s))"
proof (cases "s = []")
  case True
  have "parse_lines [[]] = initial_state"
    using parse_lines_snoc[of "[]" "[]"] empty_line_kind
    by (simp add: parse_lines_Nil step_body body_line_idle initial_state_def)
  then show ?thesis using True by (simp add: parse_diff_def initial_state_def)
next
  case False
  then show ?thesis by (rule parse_diff_lines)
qed

lemma first_chars:
  "prefix ''-'' l \<Longrightarrow> \<not> is_context_line l"
  by (cases l) (auto simp: is_context_line_def)






section \<open>Instances of sanitization and line numbers\<close>








section \<open>The two entry points\<close>

lemma is_in_suffix: "suffix s' l \<Longrightarrow> prefix a s' \<Longrightarrow> is_in a l"
proof (induction l)
  case Nil
  then show ?case by simp
next
  case (Cons c cs)
  then show ?case by (auto simp: suffix_Cons)
qed

lemma ms_suffix_state: "y \<in> set (ms r x) \<Longrightarrow> suffix (snd y) (snd x)"
  using ms_suffix[of "fst y" "snd y" r "fst x" "snd x"] by simp

lemma prefix_append_drop: "prefix (a @ b) s = (prefix a s \<and> prefix b (drop (length a) s))"
  by (auto simp: prefix_def)

lemma ms_Lit_Lit: "ms (Seq (Lit a) (Seq (Lit b) X)) st = ms (Seq (Lit (a @ b)) X) st"
  by (cases st) (auto simp: prefix_append_drop add.commute)

lemma ms_Seq_cong:
  "(\<And>y. y \<in> set (ms A st) \<Longrightarrow> ms X y = ms X' y) \<Longrightarrow> ms (Seq A X) st = ms (Seq A X') st"
  by (cases st) (simp cong: map_cong)

lemma ms_Seq_mono:
  "(\<And>y. y \<in> set (ms A st) \<Longrightarrow> set (ms X y) \<subseteq> set (ms X' y)) \<Longrightarrow>
   set (ms (Seq A X) st) \<subseteq> set (ms (Seq A X') st)"
  by (cases st) auto

lemma opt_redacted_skip:
  assumes "\<not> is_in ''[REDACTED]'' l" "suffix (snd st) l"
  shows "ms (Seq opt_redacted X) st = ms X st"
proof -
  obtain cs s where st: "st = (cs, s)" by (cases st)
  have "\<not> prefix ''[REDACTED]'' s" using assms is_in_suffix st by auto
  then show ?thesis by (simp add: st opt_redacted_def)
qed

lemma opt_redacted_mono: "set (ms X st) \<subseteq> set (ms (Seq opt_redacted X) st)"
  by (cases st) (auto simp: opt_redacted_def)

lemma tail_same:
  assumes nr: "\<not> is_in ''[REDACTED]'' l" and z: "suffix (snd z) l"
  shows "ms (Seq (Lit '' b'') (Seq opt_redacted (Seq (Lit ''/'') E))) z = ms (Seq (Lit '' b/'') E) z"
proof -
  have "ms (Seq (Lit '' b'') (Seq opt_redacted (Seq (Lit ''/'') E))) z
      = ms (Seq (Lit '' b'') (Seq (Lit ''/'') E)) z"
  proof (rule ms_Seq_cong)
    fix w assume "w \<in> set (ms (Lit '' b'') z)"
    then have "suffix (snd w) l" using ms_suffix_state z suffix_order.trans by blast
    then show "ms (Seq opt_redacted (Seq (Lit ''/'') E)) w = ms (Seq (Lit ''/'') E) w"
      using nr by (rule opt_redacted_skip[rotated])
  qed
  then show ?thesis using ms_Lit_Lit[of "'' b''" "''/''" E z] by simp
qed

lemma tail_mono:
  "set (ms (Seq (Lit '' b/'') E) z) \<subseteq> set (ms (Seq (Lit '' b'') (Seq opt_redacted (Seq (Lit ''/'') E))) z)"
proof -
  have "set (ms (Seq (Lit '' b'') (Seq (Lit ''/'') E)) z)
      \<subseteq> set (ms (Seq (Lit '' b'') (Seq opt_redacted (Seq (Lit ''/'') E))) z)"
    by (rule ms_Seq_mono) (rule opt_redacted_mono)
  then show ?thesis using ms_Lit_Lit[of "'' b''" "''/''" E z] by simp
qed

lemma header_patterns_same:
  assumes nr: "\<not> is_in ''[REDACTED]'' l"
  shows "ms file_header_pattern ([], l) = ms original_file_header_pattern ([], l)"
proof -
  let ?E = "Seq lazy_any Eol"
  let ?T = "Seq lazy_any (Seq (Lit '' b'') (Seq opt_redacted (Seq (Lit ''/'') ?E)))"
  let ?S = "Seq lazy_any (Seq (Lit '' b/'') ?E)"
  have ts: "ms ?T y = ms ?S y" if "suffix (snd y) l" for y
  proof (rule ms_Seq_cong)
    fix z assume "z \<in> set (ms lazy_any y)"
    then have "suffix (snd z) l" using ms_suffix_state that suffix_order.trans by blast
    then show "ms (Seq (Lit '' b'') (Seq opt_redacted (Seq (Lit ''/'') ?E))) z
        = ms (Seq (Lit '' b/'') ?E) z"
      using nr by (rule tail_same[rotated])
  qed
  have "ms (Seq (Lit ''diff --git a'') (Seq opt_redacted (Seq (Lit ''/'') ?T))) ([], l)
      = ms (Seq (Lit ''diff --git a'') (Seq (Lit ''/'') ?T)) ([], l)"
  proof (rule ms_Seq_cong)
    fix y assume "y \<in> set (ms (Lit ''diff --git a'') ([], l))"
    then have "suffix (snd y) l" using ms_suffix_state by fastforce
    then show "ms (Seq opt_redacted (Seq (Lit ''/'') ?T)) y = ms (Seq (Lit ''/'') ?T) y"
      using nr by (rule opt_redacted_skip[rotated])
  qed
  also have "\<dots> = ms (Seq (Lit ''diff --git a/'') ?T) ([], l)"
    using ms_Lit_Lit[of "''diff --git a''" "''/''" ?T "([], l)"] by simp
  also have "\<dots> = ms (Seq (Lit ''diff --git a/'') ?S) ([], l)"
  proof (rule ms_Seq_cong)
    fix y assume "y \<in> set (ms (Lit ''diff --git a/'') ([], l))"
    then have "suffix (snd y) l" using ms_suffix_state by fastforce
    then show "ms ?T y = ms ?S y" by (rule ts)
  qed
  finally show ?thesis
    by (simp add: file_header_pattern_def original_file_header_pattern_def)
qed

lemma header_patterns_mono:
  "set (ms original_file_header_pattern ([], l)) \<subseteq> set (ms file_header_pattern ([], l))"
proof -
  let ?E = "Seq lazy_any Eol"
  let ?T = "Seq lazy_any (Seq (Lit '' b'') (Seq opt_redacted (Seq (Lit ''/'') ?E)))"
  let ?S = "Seq lazy_any (Seq (Lit '' b/'') ?E)"
  have st: "set (ms ?S y) \<subseteq> set (ms ?T y)" for y
    by (rule ms_Seq_mono) (rule tail_mono)
  have "set (ms (Seq (Lit ''diff --git a/'') ?S) ([], l))
      \<subseteq> set (ms (Seq (Lit ''diff --git a/'') ?T) ([], l))"
    by (rule ms_Seq_mono) (rule st)
  also have "\<dots> = set (ms (Seq (Lit ''diff --git a'') (Seq (Lit ''/'') ?T)) ([], l))"
    using ms_Lit_Lit[of "''diff --git a''" "''/''" ?T "([], l)"] by simp
  also have "\<dots> \<subseteq> set (ms (Seq (Lit ''diff --git a'') (Seq opt_redacted (Seq (Lit ''/'') ?T))) ([], l))"
    by (rule ms_Seq_mono) (rule opt_redacted_mono)
  finally show ?thesis
    by (simp add: file_header_pattern_def original_file_header_pattern_def)
qed

lemma header_match_same:
  assumes "is_file_header l \<Longrightarrow> \<not> is_in ''[REDACTED]'' l"
  shows "rx_match original_file_header_pattern l = rx_match file_header_pattern l"
proof (cases "is_file_header l")
  case True
  then show ?thesis using header_patterns_same[OF assms] by (simp add: rx_match_def)
next
  case False
  then have "ms file_header_pattern ([], l) = []"
    by (auto simp: is_file_header_def rx_match_def split: list.splits)
  then have "ms original_file_header_pattern ([], l) = []"
    using header_patterns_mono[of l] by simp
  then show ?thesis using False by (simp add: is_file_header_def rx_match_def)
qed

lemma steps_same:
  "rx_match original_file_header_pattern line = rx_match file_header_pattern line \<Longrightarrow>
   parse_original_step st line = parse_step st line"
  by (simp add: parse_original_step_def parse_step_def)

lemma folds_same:
  "(\<And>l. l \<in> set ls \<Longrightarrow> rx_match original_file_header_pattern l = rx_match file_header_pattern l)
   \<Longrightarrow> foldl parse_original_step st ls = foldl parse_step st ls"
  by (induction ls arbitrary: st) (simp_all add: steps_same)

text \<open>
  C9. The loops of \<^verbatim>\<open>parse_original_diff\<close> and \<^verbatim>\<open>parse_diff\<close> do the same with a line whenever
  the two file-header patterns match it alike; and on a diff in which no line that the
  tolerant pattern takes as a file header contains \<^verbatim>\<open>[REDACTED]\<close>, the two entry points
  return the same locations.
\<close>

theorem entry_points_agree:
  "(\<forall>st line. rx_match original_file_header_pattern line = rx_match file_header_pattern line
       \<longrightarrow> parse_original_step st line = parse_step st line)
   \<and> (\<forall>d. (\<forall>l \<in> set (split_nl d). is_file_header l \<longrightarrow> \<not> is_in ''[REDACTED]'' l)
       \<longrightarrow> parse_original_diff (Some d) = parse_diff (Some d))
   \<and> parse_original_diff None = parse_diff None"
proof (intro conjI allI impI)
  fix st line
  assume "rx_match original_file_header_pattern line = rx_match file_header_pattern line"
  then show "parse_original_step st line = parse_step st line" by (rule steps_same)
next
  fix d assume a: "\<forall>l \<in> set (split_nl d). is_file_header l \<longrightarrow> \<not> is_in ''[REDACTED]'' l"
  have "foldl parse_original_step initial_state (split_nl d)
      = foldl parse_step initial_state (split_nl d)"
    by (rule folds_same) (rule header_match_same, use a in blast)
  then show "parse_original_diff (Some d) = parse_diff (Some d)"
    by (simp add: parse_original_diff_def parse_diff_def)
next
  show "parse_original_diff None = parse_diff None"
    by (simp add: parse_original_diff_def parse_diff_def)
qed

theorem entry_points_agree_witness:
  "list_all (\<lambda>l. \<not> is_in ''[REDACTED]'' l) (split_nl sample_diff)
   \<and> parse_original_diff (Some sample_diff) = parse_diff (Some sample_diff)
   \<and> length (parse_diff (Some sample_diff)) = 1"
proof -
  have h: "\<forall>l \<in> set (split_nl sample_diff). \<not> is_in ''[REDACTED]'' l" by code_simp
  have n: "length (parse_diff (Some sample_diff)) = 1" by code_simp
  from entry_points_agree have "(\<forall>l \<in> set (split_nl sample_diff). is_file_header l
        \<longrightarrow> \<not> is_in ''[REDACTED]'' l)
       \<longrightarrow> parse_original_diff (Some sample_diff) = parse_diff (Some sample_diff)"
    by blast
  then show ?thesis using h n by (simp add: list_all_iff)
qed


section \<open>The worked example of one hunk\<close>

lemma split_nl_line: "nl \<notin> set h \<Longrightarrow> split_nl (h @ nl # rest) = h # split_nl rest"
  by (induction h) (auto split: list.splits)

lemma one_hunk_body_lines:
  "split_nl one_hunk_body = [''@@ -1,3 +1,4 @@'', '' a'', ''+b'', '' c'', ''-old'', '' d'']"
  by code_simp

lemma one_hunk_kinds:
  "line_kind ''@@ -1,3 +1,4 @@'' = HunkHeader 1"
  "line_kind '' a'' = ContextLine"
  "line_kind ''+b'' = AdditionLine"
  "line_kind '' c'' = ContextLine"
  "line_kind ''-old'' = RemovalLine"
  "line_kind '' d'' = ContextLine"
  by code_simp+

lemma kind_hunk: "line_kind l = HunkHeader n \<Longrightarrow> is_hunk_header l \<and> hunk_start l = n"
  by (auto simp: line_kind_def split: if_splits)

lemma kind_body:
  "line_kind l = AdditionLine \<Longrightarrow> \<not> is_file_header l \<and> \<not> is_hunk_header l \<and> is_addition_line l"
  "line_kind l = ContextLine \<Longrightarrow>
     \<not> is_file_header l \<and> \<not> is_hunk_header l \<and> \<not> is_addition_line l \<and> is_context_line l"
  "line_kind l = RemovalLine \<Longrightarrow>
     \<not> is_file_header l \<and> \<not> is_hunk_header l \<and> \<not> is_addition_line l \<and> \<not> is_context_line l"
  by (auto simp: line_kind_def first_chars split: if_splits)

lemma single_hunk_trace:
  assumes "nl \<notin> set hdr" "header_path hdr = Some path"
  shows "split_nl (hdr @ [nl] @ one_hunk_body)
           = [hdr, ''@@ -1,3 +1,4 @@'', '' a'', ''+b'', '' c'', ''-old'', '' d'']"
    and "parse_lines [hdr, ''@@ -1,3 +1,4 @@''] = hunk_state path [] 0"
    and "parse_lines [hdr, ''@@ -1,3 +1,4 @@'', '' a''] = hunk_state path [] 1"
    and "parse_lines [hdr, ''@@ -1,3 +1,4 @@'', '' a'', ''+b'']
           = hunk_state path [\<lparr> file_path = path, line_number = 2, content = ''b'',
                                is_addition = True \<rparr>] 2"
    and "parse_lines [hdr, ''@@ -1,3 +1,4 @@'', '' a'', ''+b'', '' c'']
           = hunk_state path [\<lparr> file_path = path, line_number = 2, content = ''b'',
                                is_addition = True \<rparr>] 3"
    and "parse_lines [hdr, ''@@ -1,3 +1,4 @@'', '' a'', ''+b'', '' c'', ''-old'']
           = hunk_state path [\<lparr> file_path = path, line_number = 2, content = ''b'',
                                is_addition = True \<rparr>] 3"
    and "parse_lines [hdr, ''@@ -1,3 +1,4 @@'', '' a'', ''+b'', '' c'', ''-old'', '' d'']
           = hunk_state path [\<lparr> file_path = path, line_number = 2, content = ''b'',
                                is_addition = True \<rparr>] 4"
proof -
  have fh: "is_file_header hdr" using assms(2)
    by (auto simp: header_path_def is_file_header_def split: option.splits)
  from header_path_nonempty[OF fh] assms(2) have ne: "path \<noteq> []" by simp
  have est: "current_file (hunk_state path locs n) = Some path"
       "current_line_number (hunk_state path locs n) = Some 1" for locs n
    by (simp_all add: hunk_state_def)
  show "split_nl (hdr @ [nl] @ one_hunk_body)
           = [hdr, ''@@ -1,3 +1,4 @@'', '' a'', ''+b'', '' c'', ''-old'', '' d'']"
    using split_nl_line[OF assms(1), of one_hunk_body] by (simp add: one_hunk_body_lines)
  have s0: "parse_lines [hdr] = \<lparr> locations = [], current_file = Some path,
      current_line_number = None, lines_since_hunk = 0 \<rparr>"
    using parse_lines_snoc[of "[]" hdr] fh assms(2)
    by (simp add: parse_lines_Nil step_file_header initial_state_def)
  show s1: "parse_lines [hdr, ''@@ -1,3 +1,4 @@''] = hunk_state path [] 0"
    using parse_lines_snoc[of "[hdr]" "''@@ -1,3 +1,4 @@''"] kind_hunk[OF one_hunk_kinds(1)]
    by (simp add: s0 step_hunk_header hunk_state_def)
  show s2: "parse_lines [hdr, ''@@ -1,3 +1,4 @@'', '' a''] = hunk_state path [] 1"
    using parse_lines_snoc[of "[hdr, ''@@ -1,3 +1,4 @@'']" "'' a''"] kind_body(2)[OF one_hunk_kinds(2)]
    by (simp add: s1 step_body body_line_established[OF est(1) ne est(2)]) (simp add: hunk_state_def)
  show s3: "parse_lines [hdr, ''@@ -1,3 +1,4 @@'', '' a'', ''+b'']
           = hunk_state path [\<lparr> file_path = path, line_number = 2, content = ''b'',
                                is_addition = True \<rparr>] 2"
    using parse_lines_snoc[of "[hdr, ''@@ -1,3 +1,4 @@'', '' a'']" "''+b''"]
      kind_body(1)[OF one_hunk_kinds(3)]
    by (simp add: s2 step_body body_line_established[OF est(1) ne est(2)]) (simp add: hunk_state_def)
  show s4: "parse_lines [hdr, ''@@ -1,3 +1,4 @@'', '' a'', ''+b'', '' c'']
           = hunk_state path [\<lparr> file_path = path, line_number = 2, content = ''b'',
                                is_addition = True \<rparr>] 3"
    using parse_lines_snoc[of "[hdr, ''@@ -1,3 +1,4 @@'', '' a'', ''+b'']" "'' c''"]
      kind_body(2)[OF one_hunk_kinds(4)]
    by (simp add: s3 step_body body_line_established[OF est(1) ne est(2)]) (simp add: hunk_state_def)
  show s5: "parse_lines [hdr, ''@@ -1,3 +1,4 @@'', '' a'', ''+b'', '' c'', ''-old'']
           = hunk_state path [\<lparr> file_path = path, line_number = 2, content = ''b'',
                                is_addition = True \<rparr>] 3"
    using parse_lines_snoc[of "[hdr, ''@@ -1,3 +1,4 @@'', '' a'', ''+b'', '' c'']" "''-old''"]
      kind_body(3)[OF one_hunk_kinds(5)]
    by (simp add: s4 step_body body_line_established[OF est(1) ne est(2)])
  show "parse_lines [hdr, ''@@ -1,3 +1,4 @@'', '' a'', ''+b'', '' c'', ''-old'', '' d'']
           = hunk_state path [\<lparr> file_path = path, line_number = 2, content = ''b'',
                                is_addition = True \<rparr>] 4"
    using parse_lines_snoc[of "[hdr, ''@@ -1,3 +1,4 @@'', '' a'', ''+b'', '' c'', ''-old'']" "'' d''"]
      kind_body(2)[OF one_hunk_kinds(6)]
    by (simp add: s5 step_body body_line_established[OF est(1) ne est(2)]) (simp add: hunk_state_def)
qed


text \<open>
  C7. A diff made of one file header (any line the file-header pattern matches, with
  b-path \<open>path\<close>), the hunk header \<^verbatim>\<open>@@ -1,3 +1,4 @@\<close> and the lines \<^verbatim>\<open> a\<close>, \<^verbatim>\<open>+b\<close>, \<^verbatim>\<open> c\<close>, \<^verbatim>\<open>-old\<close>,
  \<^verbatim>\<open> d\<close> parses to the one location \<open>(path, 2, b, addition)\<close>. Before the five body lines
  the cursor stands at new-file lines 1, 2, 3, 4, 4 and after the last at 5: the context
  lines occupy lines 1, 3 and 4, the removal leaves the cursor where it is, and only \<^verbatim>\<open>+b\<close>
  adds a location.
\<close>

theorem single_hunk_example:
  assumes "nl \<notin> set hdr" "header_path hdr = Some path"
  shows "parse_diff (Some (hdr @ [nl] @ one_hunk_body))
           = [\<lparr> file_path = path, line_number = 2, content = ''b'', is_addition = True \<rparr>]
     \<and> map (\<lambda>i. cursor (parse_lines (take i (split_nl (hdr @ [nl] @ one_hunk_body)))))
           [2, 3, 4, 5, 6, 7]
         = [Some 1, Some 2, Some 3, Some 4, Some 4, Some 5]
     \<and> map (\<lambda>i. length (locations (parse_lines (take i (split_nl (hdr @ [nl] @ one_hunk_body))))))
           [2, 3, 4, 5, 6, 7]
         = [0, 0, 1, 1, 1, 1]"
proof -
  note t = single_hunk_trace[OF assms]
  have "parse_diff (Some (hdr @ [nl] @ one_hunk_body))
           = [\<lparr> file_path = path, line_number = 2, content = ''b'', is_addition = True \<rparr>]"
    by (simp only: parse_diff_all t) (simp add: hunk_state_def)
  moreover have "map (\<lambda>i. cursor (parse_lines (take i (split_nl (hdr @ [nl] @ one_hunk_body)))))
           [2, 3, 4, 5, 6, 7]
         = [Some 1, Some 2, Some 3, Some 4, Some 4, Some 5]"
    by (simp only: t(1)) (simp add: t(2-7) cursor_def hunk_state_def)
  moreover have "map (\<lambda>i. length (locations (parse_lines
            (take i (split_nl (hdr @ [nl] @ one_hunk_body))))))
           [2, 3, 4, 5, 6, 7]
         = [0, 0, 1, 1, 1, 1]"
    by (simp only: t(1)) (simp add: t(2-7) hunk_state_def)
  ultimately show ?thesis by blast
qed

theorem single_hunk_example_witness:
  "nl \<notin> set ''diff --git a/src/App.swift b/src/App.swift''
   \<and> header_path ''diff --git a/src/App.swift b/src/App.swift'' = Some ''src/App.swift''
   \<and> parse_diff (Some (''diff --git a/src/App.swift b/src/App.swift'' @ [nl] @ one_hunk_body))
       = [\<lparr> file_path = ''src/App.swift'', line_number = 2, content = ''b'',
            is_addition = True \<rparr>]"
proof -
  have 1: "nl \<notin> set ''diff --git a/src/App.swift b/src/App.swift''" by simp
  have 2: "header_path ''diff --git a/src/App.swift b/src/App.swift'' = Some ''src/App.swift''"
    by code_simp
  show ?thesis using 1 2 single_hunk_example[OF 1 2] by blast
qed

theorem no_location_without_headers_witness:
  "is_file_header ''diff --git a/f.py b/f.py''
   \<and> current_line_number (parse_step (hunk_state ''g.py'' [] 3) ''diff --git a/f.py b/f.py'') = None
   \<and> 0 < length (parse_diff (Some sample_diff))
   \<and> (\<exists>pre l post f h. split_nl sample_diff = pre @ l # post
          \<and> length (locations (parse_lines pre)) = 0
          \<and> last_with is_file_header pre = Some f
          \<and> header_path f = Some (file_path (parse_diff (Some sample_diff) ! 0))
          \<and> last_with is_hunk_header (after_last is_file_header pre) = Some h)
   \<and> split_nl (''diff --git a/f.py b/f.py'' @ [nl] @ ''+x'') = [] @ ''diff --git a/f.py b/f.py'' # [''+x'']
   \<and> parse_diff (Some (''diff --git a/f.py b/f.py'' @ [nl] @ ''+x'')) = []"
proof -
  have fh: "is_file_header ''diff --git a/f.py b/f.py''" by code_simp
  have k: "0 < length (parse_diff (Some sample_diff))" by code_simp
  have sp: "split_nl (''diff --git a/f.py b/f.py'' @ [nl] @ ''+x'')
      = [] @ ''diff --git a/f.py b/f.py'' # [''+x'']" by code_simp
  have nh: "\<forall>l \<in> set [''+x'']. \<not> is_hunk_header l" by code_simp
  note main = no_location_without_headers
  from main fh have 1: "current_line_number
      (parse_step (hunk_state ''g.py'' [] 3) ''diff --git a/f.py b/f.py'') = None" by blast
  from main k have 2: "\<exists>pre l post f h. split_nl sample_diff = pre @ l # post
          \<and> length (locations (parse_lines pre)) = 0
          \<and> locations (parse_lines (pre @ [l])) =
               locations (parse_lines pre) @ [parse_diff (Some sample_diff) ! 0]
          \<and> last_with is_file_header pre = Some f
          \<and> header_path f = Some (file_path (parse_diff (Some sample_diff) ! 0))
          \<and> last_with is_hunk_header (after_last is_file_header pre) = Some h" by blast
  from main have "split_nl (''diff --git a/f.py b/f.py'' @ [nl] @ ''+x'')
        = [] @ ''diff --git a/f.py b/f.py'' # [''+x'']
      \<and> is_file_header ''diff --git a/f.py b/f.py''
      \<and> (\<forall>l \<in> set [''+x'']. \<not> is_hunk_header l)
      \<longrightarrow> parse_diff (Some (''diff --git a/f.py b/f.py'' @ [nl] @ ''+x''))
          = locations (parse_lines [])" by blast
  then have 3: "parse_diff (Some (''diff --git a/f.py b/f.py'' @ [nl] @ ''+x'')) = []"
    using sp fh nh by (simp add: parse_lines_Nil initial_state_def)
  from 2 have e2: "\<exists>pre l post f h. split_nl sample_diff = pre @ l # post
          \<and> length (locations (parse_lines pre)) = 0
          \<and> last_with is_file_header pre = Some f
          \<and> header_path f = Some (file_path (parse_diff (Some sample_diff) ! 0))
          \<and> last_with is_hunk_header (after_last is_file_header pre) = Some h" by blast
  show ?thesis using fh 1 k e2 sp 3 by blast
qed


section \<open>Issues and locations\<close>












section \<open>Idempotence of the sanitizer\<close>

subsection \<open>The words a pattern matches\<close>

text \<open>
  For a pattern without groups the matcher returns exactly the splits of the text into a
  word of the pattern and a rest, whatever the order in which it tries them.
\<close>

lemma accepts_Seq: "accepts (Seq a b) w \<longleftrightarrow> (\<exists>u v. w = u @ v \<and> accepts a u \<and> accepts b v)"
proof
  assume "accepts (Seq a b) w"
  then obtain i where "accepts a (take i w)" "accepts b (drop i w)"
    unfolding accepts.simps list_ex_iff by blast
  then show "\<exists>u v. w = u @ v \<and> accepts a u \<and> accepts b v"
    by (intro exI[of _ "take i w"] exI[of _ "drop i w"]) simp
next
  assume "\<exists>u v. w = u @ v \<and> accepts a u \<and> accepts b v"
  then obtain u v where w: "w = u @ v" and a: "accepts a u" and b: "accepts b v" by blast
  have "length u \<in> set [0 ..< Suc (length w)]" using w by simp
  moreover have "accepts a (take (length u) w) \<and> accepts b (drop (length u) w)"
    using w a b by simp
  ultimately show "accepts (Seq a b) w"
    unfolding accepts.simps list_ex_iff by blast
qed

declare accepts.simps(5) [simp del]

lemma plain_groups: "plain r \<Longrightarrow> groups r = 0"
  by (induction r) auto

lemma takeWhile_len: "j \<le> length (takeWhile p s) \<longleftrightarrow> j \<le> length s \<and> list_all p (take j s)"
proof (induction s arbitrary: j)
  case Nil
  then show ?case by simp
next
  case (Cons c s)
  then show ?case by (cases j) auto
qed

lemma reps_set:
  "j \<in> set (reps p m n g s) \<longleftrightarrow>
     m \<le> j \<and> j \<le> length (takeWhile p s) \<and> (case n of None \<Rightarrow> True | Some b \<Rightarrow> j \<le> b)"
  by (auto simp: reps_def Let_def split: option.splits)

lemma ms_Chars:
  "(cs', s') \<in> set (ms (Chars p m n g) (cs, s)) \<longleftrightarrow>
     cs' = cs \<and> (\<exists>w. s = w @ s' \<and> accepts (Chars p m n g) w)"
proof
  assume "(cs', s') \<in> set (ms (Chars p m n g) (cs, s))"
  then obtain j where j: "j \<in> set (reps p m n g s)" and c: "cs' = cs" and s': "s' = drop j s"
    by auto
  from j have b: "m \<le> j" "j \<le> length s" "list_all p (take j s)"
    "case n of None \<Rightarrow> True | Some b \<Rightarrow> j \<le> b"
    by (auto simp: reps_set takeWhile_len)
  have "s = take j s @ s'" using s' by simp
  moreover have "accepts (Chars p m n g) (take j s)"
    using b by (auto split: option.splits)
  ultimately show "cs' = cs \<and> (\<exists>w. s = w @ s' \<and> accepts (Chars p m n g) w)"
    using c by blast
next
  assume "cs' = cs \<and> (\<exists>w. s = w @ s' \<and> accepts (Chars p m n g) w)"
  then obtain w where c: "cs' = cs" and s: "s = w @ s'" and a: "accepts (Chars p m n g) w"
    by blast
  have "length w \<in> set (reps p m n g s)"
    using a s by (auto simp: reps_set takeWhile_len split: option.splits)
  then have "(cs, drop (length w) s) \<in> set (ms (Chars p m n g) (cs, s))"
    by auto
  then show "(cs', s') \<in> set (ms (Chars p m n g) (cs, s))" using c s by simp
qed

lemma ms_plain:
  "plain r \<Longrightarrow>
   (cs', s') \<in> set (ms r (cs, s)) \<longleftrightarrow> cs' = cs \<and> (\<exists>w. s = w @ s' \<and> accepts r w)"
proof (induction r arbitrary: cs s cs' s')
  case (Lit l)
  show ?case by (auto simp: prefix_def)
next
  case (Chars p m n g)
  show ?case by (rule ms_Chars)
next
  case (Opt r)
  then show ?case using plain_groups[of r] by auto
next
  case (Grp r)
  then show ?case by simp
next
  case (Seq a b)
  from Seq.prems have pa: "plain a" and pb: "plain b" by auto
  show ?case
    unfolding ms_Seq_iff accepts_Seq
  proof
    assume "\<exists>y\<in>set (ms a (cs, s)). (cs', s') \<in> set (ms b y)"
    then obtain c1 s1 where 1: "(c1, s1) \<in> set (ms a (cs, s))"
      and 2: "(cs', s') \<in> set (ms b (c1, s1))" by auto
    from 1 Seq.IH(1)[OF pa] obtain u where u: "c1 = cs" "s = u @ s1" "accepts a u" by blast
    from 2 Seq.IH(2)[OF pb] obtain v where v: "cs' = c1" "s1 = v @ s'" "accepts b v" by blast
    show "cs' = cs \<and> (\<exists>w. s = w @ s' \<and> (\<exists>u v. w = u @ v \<and> accepts a u \<and> accepts b v))"
      using u v by auto
  next
    assume "cs' = cs \<and> (\<exists>w. s = w @ s' \<and> (\<exists>u v. w = u @ v \<and> accepts a u \<and> accepts b v))"
    then obtain u v where c: "cs' = cs" and s: "s = (u @ v) @ s'" and a: "accepts a u"
      and b: "accepts b v" by blast
    have 1: "(cs, v @ s') \<in> set (ms a (cs, s))" using Seq.IH(1)[OF pa] s a by auto
    have 2: "(cs', s') \<in> set (ms b (cs, v @ s'))" using Seq.IH(2)[OF pb] c b by auto
    show "\<exists>y\<in>set (ms a (cs, s)). (cs', s') \<in> set (ms b y)" using 1 2 by blast
  qed
next
  case Eol
  then show ?case by simp
qed

lemma ms_Grp_plain:
  assumes "plain a"
  shows "(cs', s') \<in> set (ms (Grp a) (cs, s)) \<longleftrightarrow>
           (\<exists>u. s = u @ s' \<and> accepts a u \<and> cs' = cs @ [Some u])"
proof
  assume "(cs', s') \<in> set (ms (Grp a) (cs, s))"
  from ms_Grp_free[OF plain_groups[OF assms] this] obtain u
    where u: "s = u @ s'" "cs' = cs @ [Some u]" "(cs, s') \<in> set (ms a (cs, s))" by blast
  from u(3) ms_plain[OF assms] obtain w where "s = w @ s'" "accepts a w" by blast
  with u show "\<exists>u. s = u @ s' \<and> accepts a u \<and> cs' = cs @ [Some u]" by auto
next
  assume "\<exists>u. s = u @ s' \<and> accepts a u \<and> cs' = cs @ [Some u]"
  then obtain u where u: "s = u @ s'" "accepts a u" "cs' = cs @ [Some u]" by blast
  then have "(cs, s') \<in> set (ms a (cs, s))" using ms_plain[OF assms] by blast
  then have "(take (length cs) cs @ Some (take (length s - length s') s) # drop (length cs) cs, s')
      \<in> set (ms (Grp a) (cs, s))"
    by force
  then show "(cs', s') \<in> set (ms (Grp a) (cs, s))" using u by simp
qed

subsection \<open>A rule application as kept and replaced stretches\<close>

text \<open>
  The matches of a rule of three groups or of one group are its triples. The scan of
  \<^verbatim>\<open>sub\<close> therefore cuts the text as \<^verbatim>\<open>cut\<close> describes, and a rule applied to a text that is
  settled for it returns the text.
\<close>

lemma old_text_simps [simp]:
  "old_text [] = []"
  "old_text (Ret c # as) = c # old_text as"
  "old_text (Ins S # as) = S @ old_text as"
  "old_text (as @ bs) = old_text as @ old_text bs"
  "old_text (map Ret w) = w"
  by (simp_all add: old_text_def) (induction w, simp_all)

lemma new_text_simps [simp]:
  "new_text [] = []"
  "new_text (Ret c # as) = c # new_text as"
  "new_text (Ins S # as) = tok @ new_text as"
  "new_text (as @ bs) = new_text as @ new_text bs"
  "new_text (map Ret w) = w"
  by (simp_all add: new_text_def) (induction w, simp_all)

lemma ms_ruleish:
  assumes "ruleish r"
  shows "(cs', s') \<in> set (ms r ([], s)) \<longleftrightarrow>
           (\<exists>g1 S g3. part r g1 S g3 \<and> s = g1 @ S @ g3 @ s' \<and> cs' = caps_of r g1 S g3)"
  using assms
proof (induction r rule: ruleish.induct)
  case (1 a b c)
  then have p: "plain a" "plain b" "plain c" by auto
  have g: "groups (Seq (Grp a) (Seq (Grp b) (Grp c))) = 3"
    using plain_groups[OF p(1)] plain_groups[OF p(2)] plain_groups[OF p(3)] by simp
  show ?case
  proof
    assume "(cs', s') \<in> set (ms (Seq (Grp a) (Seq (Grp b) (Grp c))) ([], s))"
    then obtain st1 st2 where 1: "st1 \<in> set (ms (Grp a) ([], s))"
      and 2: "st2 \<in> set (ms (Grp b) st1)" and 3: "(cs', s') \<in> set (ms (Grp c) st2)"
      unfolding ms_Seq_iff by blast
    obtain c1 s1 c2 s2 where st: "st1 = (c1, s1)" "st2 = (c2, s2)"
      by (cases st1, cases st2) auto
    from 1[unfolded st ms_Grp_plain[OF p(1)]] obtain g1
      where a: "s = g1 @ s1" "accepts a g1" "c1 = [Some g1]" by auto
    from 2[unfolded st ms_Grp_plain[OF p(2)]] obtain g2
      where b: "s1 = g2 @ s2" "accepts b g2" "c2 = c1 @ [Some g2]" by auto
    from 3[unfolded st ms_Grp_plain[OF p(3)]] obtain g3
      where c: "s2 = g3 @ s'" "accepts c g3" "cs' = c2 @ [Some g3]" by auto
    show "\<exists>g1 S g3. part (Seq (Grp a) (Seq (Grp b) (Grp c))) g1 S g3 \<and> s = g1 @ S @ g3 @ s'
        \<and> cs' = caps_of (Seq (Grp a) (Seq (Grp b) (Grp c))) g1 S g3"
      using a b c g by (intro exI[of _ g1] exI[of _ g2] exI[of _ g3]) (simp add: caps_of_def)
  next
    assume "\<exists>g1 S g3. part (Seq (Grp a) (Seq (Grp b) (Grp c))) g1 S g3 \<and> s = g1 @ S @ g3 @ s'
        \<and> cs' = caps_of (Seq (Grp a) (Seq (Grp b) (Grp c))) g1 S g3"
    then obtain g1 S g3 where a: "accepts a g1" "accepts b S" "accepts c g3"
      and s: "s = g1 @ S @ g3 @ s'" and c: "cs' = [Some g1, Some S, Some g3]"
      using g by (auto simp: caps_of_def)
    have 1: "([Some g1], S @ g3 @ s') \<in> set (ms (Grp a) ([], s))"
      unfolding ms_Grp_plain[OF p(1)] using a s by simp
    have 2: "([Some g1, Some S], g3 @ s') \<in> set (ms (Grp b) ([Some g1], S @ g3 @ s'))"
      unfolding ms_Grp_plain[OF p(2)] using a by simp
    have 3: "(cs', s') \<in> set (ms (Grp c) ([Some g1, Some S], g3 @ s'))"
      unfolding ms_Grp_plain[OF p(3)] using a c by simp
    show "(cs', s') \<in> set (ms (Seq (Grp a) (Seq (Grp b) (Grp c))) ([], s))"
      unfolding ms_Seq_iff using 1 2 3 by blast
  qed
next
  case (2 a)
  then have p: "plain a" by simp
  have g: "groups (Grp a) = 1" using plain_groups[OF p] by simp
  show ?case unfolding ms_Grp_plain[OF p] using g by (auto simp: caps_of_def)
qed simp_all

lemma ruleish_groups: "ruleish r \<Longrightarrow> groups r = 3 \<or> groups r = 1"
  by (induction r rule: ruleish.induct) (auto dest: plain_groups)

lemma part_one: "ruleish r \<Longrightarrow> groups r \<noteq> 3 \<Longrightarrow> part r g1 S g3 \<Longrightarrow> g1 = [] \<and> g3 = []"
  by (induction r rule: ruleish.induct) (auto dest: plain_groups)

lemma caps_atoms:
  assumes "ruleish r" "part r g1 S g3"
  shows "seg_atoms (Hit (caps_of r g1 S g3) (g1 @ S @ g3)) = map Ret g1 @ Ins S # map Ret g3"
proof (cases "groups r = 3")
  case True
  then show ?thesis by (simp add: caps_of_def group_text_3)
next
  case False
  with part_one[OF assms(1) False assms(2)] show ?thesis by (simp add: caps_of_def)
qed

lemma caps_repl:
  assumes "ruleish r" "part r g1 S g3"
  shows "repl_of r (caps_of r g1 S g3) = g1 @ tok @ g3"
proof (cases "groups r = 3")
  case True
  then show ?thesis by (simp add: caps_of_def repl_of_def keep_ends_def group_text_3)
next
  case False
  with part_one[OF assms(1) False assms(2)] show ?thesis by (simp add: caps_of_def repl_of_def)
qed

lemma match_here_False:
  "match_here r False s = (case ms r ([], s) of [] \<Rightarrow> None | x # _ \<Rightarrow> Some x)"
  by (simp add: match_here_def split_def)

lemma scan_cut:
  assumes r: "ruleish r" and ne: "solid (part r)"
  shows "cut (part r) s (atoms r s) \<and> sub r (repl_of r) s = new_text (atoms r s)"
proof (induction "length s" arbitrary: s rule: less_induct)
  case less
  show ?case
  proof (cases "ms r ([], s)")
    case Nil
    then have none: "match_here r False s = None" by (simp add: match_here_False)
    have nm: "\<not> matches_at (part r) s"
    proof
      assume "matches_at (part r) s"
      then obtain g1 S g3 rest where "part r g1 S g3" "s = g1 @ S @ g3 @ rest"
        by (auto simp: matches_at_def)
      then have "(caps_of r g1 S g3, rest) \<in> set (ms r ([], s))"
        unfolding ms_ruleish[OF r] by blast
      then show False using Nil by simp
    qed
    show ?thesis
    proof (cases s)
      case Nil
      then show ?thesis using none
        by (simp add: atoms_def sub_def scan.simps[of r False "[]"] cut_end)
    next
      case (Cons c cs)
      have sc: "scan r False s = Gap c # scan r False cs"
        using none Cons by (subst scan.simps) simp
      from less[of cs] Cons have ih: "cut (part r) cs (atoms r cs)"
        "sub r (repl_of r) cs = new_text (atoms r cs)" by auto
      have 1: "cut (part r) s (atoms r s)"
        using cut_gap[OF nm[unfolded Cons] ih(1)] sc Cons by (simp add: atoms_def)
      have 2: "sub r (repl_of r) s = new_text (atoms r s)"
        using ih(2) sc by (simp add: atoms_def sub_def)
      show ?thesis using 1 2 by simp
    qed
  next
    case (Cons x rest0)
    obtain cs rest where x: "x = (cs, rest)" by (cases x)
    have some: "match_here r False s = Some (cs, rest)"
      using Cons x by (simp add: match_here_False)
    have "(cs, rest) \<in> set (ms r ([], s))" using Cons x by simp
    then obtain g1 S g3 where p: "part r g1 S g3" and s: "s = g1 @ S @ g3 @ rest"
      and cs: "cs = caps_of r g1 S g3"
      unfolding ms_ruleish[OF r] by blast
    have m: "g1 @ S @ g3 \<noteq> []" using ne p by (auto simp: solid_def)
    then have len: "length rest < length s" using s by (cases g1; cases S; cases g3) auto
    have tk: "take (length s - length rest) s = g1 @ S @ g3" using s by simp
    have sc: "scan r False s = Hit cs (g1 @ S @ g3) # scan r False rest"
      using some len tk by (subst scan.simps) simp
    from less[OF len] have ih: "cut (part r) rest (atoms r rest)"
      "sub r (repl_of r) rest = new_text (atoms r rest)" by auto
    have at: "atoms r s = (map Ret g1 @ Ins S # map Ret g3) @ atoms r rest"
      using sc caps_atoms[OF r p] cs by (simp add: atoms_def)
    have 1: "cut (part r) s (atoms r s)"
      using cut_hit[OF p ih(1)] at s by simp
    have "sub r (repl_of r) s = repl_of r cs @ sub r (repl_of r) rest"
      using sc by (simp add: sub_def)
    then have 2: "sub r (repl_of r) s = new_text (atoms r s)"
      using ih(2) at caps_repl[OF r p] cs by simp
    show ?thesis using 1 2 by simp
  qed
qed

lemma apply_rule_repl: "ruleish r \<Longrightarrow> apply_rule cfg r s = sub r (repl_of r) s"
  using ruleish_groups[of r] by (auto simp: apply_rule_def repl_of_def)

lemma cut_old: "cut P s as \<Longrightarrow> old_text as = s"
  by (induction rule: cut.induct) simp_all

lemma cut_ins:
  "cut P s as \<Longrightarrow> Ins S \<in> set as \<Longrightarrow> \<exists>pre g1 g3 post. s = pre @ g1 @ S @ g3 @ post \<and> P g1 S g3"
proof (induction rule: cut.induct)
  case cut_end
  then show ?case by simp
next
  case (cut_gap c cs as)
  then obtain pre g1 g3 post where "cs = pre @ g1 @ S @ g3 @ post" "P g1 S g3" by auto
  then have "c # cs = (c # pre) @ g1 @ S @ g3 @ post \<and> P g1 S g3" by simp
  then show ?case by blast
next
  case (cut_hit h1 T h3 rest as)
  from cut_hit.prems have "S = T \<or> Ins S \<in> set as" by auto
  then show ?case
  proof
    assume "S = T"
    then have "h1 @ T @ h3 @ rest = [] @ h1 @ S @ h3 @ rest \<and> P h1 S h3"
      using cut_hit.hyps(1) by simp
    then show ?thesis by blast
  next
    assume "Ins S \<in> set as"
    with cut_hit.IH obtain pre g1 g3 post where "rest = pre @ g1 @ S @ g3 @ post" "P g1 S g3"
      by auto
    then have "h1 @ T @ h3 @ rest = (h1 @ T @ h3 @ pre) @ g1 @ S @ g3 @ post \<and> P g1 S g3"
      by simp
    then show ?thesis by blast
  qed
qed

lemma same_text: "(\<And>S. Ins S \<in> set as \<Longrightarrow> S = tok) \<Longrightarrow> new_text as = old_text as"
proof (induction as)
  case Nil
  then show ?case by simp
next
  case (Cons a as)
  then show ?case by (cases a) auto
qed

lemma settled_fixed:
  assumes "ruleish r" "solid (part r)" "settled (part r) s"
  shows "apply_rule cfg r s = s"
proof -
  from scan_cut[OF assms(1,2)] have c: "cut (part r) s (atoms r s)"
    and n: "sub r (repl_of r) s = new_text (atoms r s)" by auto
  have "S = tok" if "Ins S \<in> set (atoms r s)" for S
    using cut_ins[OF c that] assms(3) unfolding settled_def by blast
  from same_text[OF this] have "new_text (atoms r s) = old_text (atoms r s)" by blast
  then show ?thesis using n cut_old[OF c] apply_rule_repl[OF assms(1)] by simp
qed

subsection \<open>Splitting a text after a rule was applied\<close>

text \<open>
  A text that a rule produced, split at a given place: the place lies between two stretches,
  or inside a token the rule put there.
\<close>

lemma split_new:
  "new_text as = u @ v \<Longrightarrow>
     (\<exists>as1 as2. as = as1 @ as2 \<and> new_text as1 = u \<and> new_text as2 = v)
   \<or> (\<exists>t1 t2 v'. t1 \<noteq> [] \<and> t2 \<noteq> [] \<and> t1 @ t2 = tok \<and> suffix t1 u \<and> v = t2 @ v')"
proof (induction as arbitrary: u)
  case Nil
  then show ?case by simp
next
  case (Cons a as)
  show ?case
  proof (cases a)
    case (Ret c)
    show ?thesis
    proof (cases u)
      case Nil
      then have "a # as = [] @ (a # as) \<and> new_text [] = u \<and> new_text (a # as) = v"
        using Cons.prems by simp
      then show ?thesis by blast
    next
      case (Cons d u')
      with Cons.prems Ret have d: "d = c" and n: "new_text as = u' @ v" by auto
      from Cons.IH[OF n] show ?thesis
      proof
        assume "\<exists>as1 as2. as = as1 @ as2 \<and> new_text as1 = u' \<and> new_text as2 = v"
        then obtain as1 as2 where "as = as1 @ as2" "new_text as1 = u'" "new_text as2 = v"
          by blast
        then have "a # as = (a # as1) @ as2 \<and> new_text (a # as1) = u \<and> new_text as2 = v"
          using Ret Cons d by simp
        then show ?thesis by blast
      next
        assume "\<exists>t1 t2 v'. t1 \<noteq> [] \<and> t2 \<noteq> [] \<and> t1 @ t2 = tok \<and> suffix t1 u' \<and> v = t2 @ v'"
        then obtain t1 t2 v' where t: "t1 \<noteq> []" "t2 \<noteq> []" "t1 @ t2 = tok" "suffix t1 u'"
          "v = t2 @ v'" by blast
        have "suffix t1 u" using t(4) Cons by (simp add: suffix_Cons)
        with t show ?thesis by blast
      qed
    qed
  next
    case (Ins S)
    with Cons.prems have "tok @ new_text as = u @ v" by simp
    then obtain w where w: "(tok = u @ w \<and> v = w @ new_text as)
        \<or> (tok @ w = u \<and> new_text as = w @ v)"
      unfolding append_eq_append_conv2 by blast
    then show ?thesis
    proof
      assume a1: "tok = u @ w \<and> v = w @ new_text as"
      show ?thesis
      proof (cases "u = []")
        case True
        then have "a # as = [] @ (a # as) \<and> new_text [] = u \<and> new_text (a # as) = v"
          using Cons.prems by simp
        then show ?thesis by blast
      next
        case False
        show ?thesis
        proof (cases "w = []")
          case True
          then have "a # as = [a] @ as \<and> new_text [a] = u \<and> new_text as = v"
            using a1 Ins by simp
          then show ?thesis by blast
        next
          case w: False
          have "u \<noteq> [] \<and> w \<noteq> [] \<and> u @ w = tok \<and> suffix u u \<and> v = w @ new_text as"
            using False w a1 by simp
          then show ?thesis by blast
        qed
      qed
    next
      assume a2: "tok @ w = u \<and> new_text as = w @ v"
      then have n: "new_text as = w @ v" by simp
      from Cons.IH[OF n] show ?thesis
      proof
        assume "\<exists>as1 as2. as = as1 @ as2 \<and> new_text as1 = w \<and> new_text as2 = v"
        then obtain as1 as2 where "as = as1 @ as2" "new_text as1 = w" "new_text as2 = v"
          by blast
        then have "a # as = (a # as1) @ as2 \<and> new_text (a # as1) = u \<and> new_text as2 = v"
          using Ins a2 by simp
        then show ?thesis by blast
      next
        assume "\<exists>t1 t2 v'. t1 \<noteq> [] \<and> t2 \<noteq> [] \<and> t1 @ t2 = tok \<and> suffix t1 w \<and> v = t2 @ v'"
        then obtain t1 t2 v' where t: "t1 \<noteq> []" "t2 \<noteq> []" "t1 @ t2 = tok" "suffix t1 w"
          "v = t2 @ v'" by blast
        have "suffix t1 u" using t(4) a2 by (auto simp: suffix_def)
        with t show ?thesis by blast
      qed
    qed
  qed
qed

lemma ret_prefix:
  "new_text as = w @ v \<Longrightarrow> CHR ''['' \<notin> set w \<Longrightarrow> \<exists>as'. as = map Ret w @ as' \<and> new_text as' = v"
proof (induction w arbitrary: as)
  case Nil
  then show ?case by simp
next
  case (Cons c w)
  show ?case
  proof (cases as)
    case Nil
    then show ?thesis using Cons.prems by simp
  next
    case (Cons a as0)
    show ?thesis
    proof (cases a)
      case (Ret d)
      with Cons.prems Cons have d: "d = c" and n: "new_text as0 = w @ v" by auto
      from Cons.IH[OF n] Cons.prems(2) obtain as' where "as0 = map Ret w @ as'" "new_text as' = v"
        by auto
      then show ?thesis using Cons Ret d by simp
    next
      case (Ins S)
      with Cons.prems Cons show ?thesis by simp
    qed
  qed
qed

lemma split_at_char:
  assumes "new_text as = u @ c # v" "c \<notin> set tok"
  shows "\<exists>as1 as2. as = as1 @ Ret c # as2 \<and> new_text as1 = u \<and> new_text as2 = v"
proof -
  from split_new[OF assms(1)] show ?thesis
  proof
    assume "\<exists>as1 as2. as = as1 @ as2 \<and> new_text as1 = u \<and> new_text as2 = c # v"
    then obtain as1 as2 where a: "as = as1 @ as2" "new_text as1 = u" "new_text as2 = [c] @ v"
      by auto
    have "CHR ''['' \<notin> set [c]" using assms(2) by auto
    from ret_prefix[OF a(3) this] obtain as' where "as2 = Ret c # as'" "new_text as' = v"
      by auto
    with a show ?thesis by blast
  next
    assume "\<exists>t1 t2 v'. t1 \<noteq> [] \<and> t2 \<noteq> [] \<and> t1 @ t2 = tok \<and> suffix t1 u \<and> c # v = t2 @ v'"
    then obtain t1 t2 v' where t: "t2 \<noteq> []" "t1 @ t2 = tok" "c # v = t2 @ v'" by blast
    then have "c \<in> set t2" by (cases t2) auto
    moreover have "set t2 \<subseteq> set tok" using t(2) by (metis set_append Un_upper2)
    ultimately show ?thesis using assms(2) by blast
  qed
qed

lemma ret_ins:
  "map Ret g @ R = A @ Ins S # B \<Longrightarrow> \<exists>A'. A = map Ret g @ A' \<and> R = A' @ Ins S # B"
proof (induction g arbitrary: A)
  case Nil
  then show ?case by simp
next
  case (Cons c g)
  show ?case
  proof (cases A)
    case Nil
    then show ?thesis using Cons.prems by simp
  next
    case (Cons a A0)
    with Cons.prems have "a = Ret c" "map Ret g @ R = A0 @ Ins S # B" by auto
    with Cons.IH[of A0] Cons show ?thesis by auto
  qed
qed

lemma cut_flanked:
  assumes P: "\<And>g1 S g3. P g1 S g3 \<Longrightarrow> g1 \<noteq> [] \<and> L (last g1) \<and> g3 \<noteq> [] \<and> R (hd g3)"
  shows "cut P s as \<Longrightarrow> flanked L R as"
proof (induction rule: cut.induct)
  case cut_end
  then show ?case by (simp add: flanked_def)
next
  case (cut_gap c cs as)
  show ?case unfolding flanked_def
  proof (intro allI impI)
    fix A S B
    assume e: "Ret c # as = A @ Ins S # B"
    then obtain A0 where A: "A = Ret c # A0" and as: "as = A0 @ Ins S # B"
      by (cases A) auto
    from cut_gap.IH[unfolded flanked_def] as
    have "(A0 \<noteq> [] \<and> (\<exists>c. last A0 = Ret c \<and> L c)) \<and> (B \<noteq> [] \<and> (\<exists>c. hd B = Ret c \<and> R c))"
      by blast
    then show "(A \<noteq> [] \<and> (\<exists>c. last A = Ret c \<and> L c)) \<and> (B \<noteq> [] \<and> (\<exists>c. hd B = Ret c \<and> R c))"
      using A by simp
  qed
next
  case (cut_hit g1 T g3 rest as)
  from P[OF cut_hit.hyps(1)] have p: "g1 \<noteq> []" "L (last g1)" "g3 \<noteq> []" "R (hd g3)" by auto
  show ?case unfolding flanked_def
  proof (intro allI impI)
    fix A S B
    assume e: "map Ret g1 @ Ins T # map Ret g3 @ as = A @ Ins S # B"
    from ret_ins[OF e] obtain A' where A: "A = map Ret g1 @ A'"
      and e2: "Ins T # map Ret g3 @ as = A' @ Ins S # B" by blast
    show "(A \<noteq> [] \<and> (\<exists>c. last A = Ret c \<and> L c)) \<and> (B \<noteq> [] \<and> (\<exists>c. hd B = Ret c \<and> R c))"
    proof (cases A')
      case Nil
      with e2 have B: "B = map Ret g3 @ as" by simp
      have "last A = Ret (last g1)" using A Nil p(1) by (simp add: last_map)
      moreover have "hd B = Ret (hd g3)" using B p(3) by (simp add: hd_map)
      ultimately show ?thesis using p A Nil B by simp
    next
      case (Cons a A'')
      with e2 have e3: "map Ret g3 @ as = A'' @ Ins S # B" by simp
      from ret_ins[OF e3] obtain A3 where A3: "A'' = map Ret g3 @ A3" and as: "as = A3 @ Ins S # B"
        by blast
      from cut_hit.IH[unfolded flanked_def] as
      have "(A3 \<noteq> [] \<and> (\<exists>c. last A3 = Ret c \<and> L c)) \<and> (B \<noteq> [] \<and> (\<exists>c. hd B = Ret c \<and> R c))"
        by blast
      then show ?thesis using A Cons A3 by simp
    qed
  qed
qed

lemma cut_inserted:
  assumes "\<And>g1 S g3. P g1 S g3 \<Longrightarrow> Q S" "cut P s as"
  shows "inserted Q as"
  unfolding inserted_def using cut_ins[OF assms(2)] assms(1) by blast

lemma cut_suffix:
  "cut P s as \<Longrightarrow> as = as1 @ as2 \<Longrightarrow>
     as2 = []
   \<or> (\<exists>c as'. as2 = Ret c # as' \<and> \<not> matches_at P (old_text as2))
   \<or> (\<exists>u v S g3 as'. P (u @ v) S g3 \<and> as2 = map Ret v @ Ins S # map Ret g3 @ as')
   \<or> (\<exists>g1 S u v as'. P g1 S (u @ v) \<and> v \<noteq> [] \<and> as2 = map Ret v @ as')"
proof (induction arbitrary: as1 rule: cut.induct)
  case cut_end
  then show ?case by simp
next
  case (cut_gap c cs as)
  show ?case
  proof (cases as1)
    case Nil
    then have "as2 = Ret c # as" using cut_gap.prems by simp
    moreover have "old_text (Ret c # as) = c # cs" using cut_old[OF cut_gap.hyps(2)] by simp
    ultimately show ?thesis using cut_gap.hyps(1) by simp
  next
    case (Cons a as1')
    then have "as = as1' @ as2" using cut_gap.prems by simp
    from cut_gap.IH[OF this] show ?thesis .
  qed
next
  case (cut_hit g1 S g3 rest as)
  from cut_hit.prems have "(map Ret g1 @ Ins S # map Ret g3) @ as = as1 @ as2" by simp
  then obtain w where w: "(map Ret g1 @ Ins S # map Ret g3 = as1 @ w \<and> as2 = w @ as)
      \<or> ((map Ret g1 @ Ins S # map Ret g3) @ w = as1 \<and> as = w @ as2)"
    unfolding append_eq_append_conv2 by blast
  then show ?case
  proof
    assume "(map Ret g1 @ Ins S # map Ret g3) @ w = as1 \<and> as = w @ as2"
    then have "as = w @ as2" by simp
    from cut_hit.IH[OF this] show ?thesis .
  next
    assume a: "map Ret g1 @ Ins S # map Ret g3 = as1 @ w \<and> as2 = w @ as"
    then obtain w' where w': "(map Ret g1 = as1 @ w' \<and> w = w' @ Ins S # map Ret g3)
        \<or> (map Ret g1 @ w' = as1 \<and> Ins S # map Ret g3 = w' @ w)"
      unfolding append_eq_append_conv2 by blast
    then show ?thesis
    proof
      assume b: "map Ret g1 = as1 @ w' \<and> w = w' @ Ins S # map Ret g3"
      then obtain u v where uv: "g1 = u @ v" "w' = map Ret v"
        unfolding map_eq_append_conv by blast
      have "P (u @ v) S g3 \<and> as2 = map Ret v @ Ins S # map Ret g3 @ as"
        using cut_hit.hyps(1) uv a b by simp
      then show ?thesis by blast
    next
      assume b: "map Ret g1 @ w' = as1 \<and> Ins S # map Ret g3 = w' @ w"
      show ?thesis
      proof (cases w')
        case Nil
        then have "P (g1 @ []) S g3 \<and> as2 = map Ret [] @ Ins S # map Ret g3 @ as"
          using cut_hit.hyps(1) a b by simp
        then show ?thesis by blast
      next
        case (Cons x w'')
        with b have "map Ret g3 = w'' @ w" by simp
        then obtain u v where uv: "g3 = u @ v" "w = map Ret v"
          unfolding map_eq_append_conv by blast
        show ?thesis
        proof (cases "v = []")
          case True
          then have "as = [] @ as2" using a uv by simp
          from cut_hit.IH[OF this] show ?thesis .
        next
          case False
          then have "P g1 S (u @ v) \<and> v \<noteq> [] \<and> as2 = map Ret v @ as"
            using cut_hit.hyps(1) uv a by simp
          then show ?thesis by blast
        qed
      qed
    qed
  qed
qed

subsection \<open>The shapes of the matches of each family\<close>

text \<open>
  What is needed of the four families: where a match can start, which characters it can
  hold.
\<close>

lemma aligned_start:
  assumes "no_inner P" "P g1 S g3" "new_text as = pre @ g1 @ S @ g3 @ post"
  shows "\<exists>as1 as2. as = as1 @ as2 \<and> new_text as1 = pre \<and> new_text as2 = g1 @ S @ g3 @ post"
proof -
  from split_new[OF assms(3)] show ?thesis
  proof
    assume "\<exists>t1 t2 v'. t1 \<noteq> [] \<and> t2 \<noteq> [] \<and> t1 @ t2 = tok \<and> suffix t1 pre
        \<and> g1 @ S @ g3 @ post = t2 @ v'"
    then show ?thesis using assms(1,2) unfolding no_inner_def by blast
  qed
qed

lemma ret_or_ins:
  "as = map Ret (new_text as) \<or> (\<exists>w S r. as = map Ret w @ Ins S # r)"
proof (induction as)
  case Nil
  then show ?case by simp
next
  case (Cons a as)
  show ?case
  proof (cases a)
    case (Ret c)
    from Cons.IH show ?thesis
    proof
      assume "as = map Ret (new_text as)"
      then have "a # as = map Ret (new_text (a # as))" using Ret by simp
      then show ?thesis by blast
    next
      assume "\<exists>w S r. as = map Ret w @ Ins S # r"
      then obtain w S r where "as = map Ret w @ Ins S # r" by blast
      then have "a # as = map Ret (c # w) @ Ins S # r" using Ret by simp
      then show ?thesis by blast
    qed
  next
    case (Ins S)
    then have "a # as = map Ret [] @ Ins S # as" by simp
    then show ?thesis by blast
  qed
qed

lemma uniq_split:
  assumes "list_all Q a" "list_all Q b" "\<not> Q c" "\<not> Q d" "a @ c # x = b @ d # y"
  shows "a = b"
proof -
  have "takeWhile Q (a @ c # x) = a" using assms(1,3) by (simp add: takeWhile_append2 list_all_iff)
  moreover have "takeWhile Q (b @ d # y) = b"
    using assms(2,4) by (simp add: takeWhile_append2 list_all_iff)
  ultimately show ?thesis using assms(5) by simp
qed

lemma ret_ret:
  "map Ret g @ as3 = map Ret v @ Ins S # R \<Longrightarrow> \<exists>w. v = g @ w \<and> as3 = map Ret w @ Ins S # R"
proof (induction g arbitrary: v)
  case Nil
  then show ?case by simp
next
  case (Cons c g)
  show ?case
  proof (cases v)
    case Nil
    then show ?thesis using Cons.prems by simp
  next
    case (Cons d v')
    with Cons.prems have "d = c" "map Ret g @ as3 = map Ret v' @ Ins S # R" by auto
    with Cons.IH[of v'] Cons show ?thesis by auto
  qed
qed

lemma ret_in_new: "Ret c \<in> set as \<Longrightarrow> c \<in> set (new_text as)"
  by (auto simp: new_text_def intro!: bexI[of _ "Ret c"])

lemma ret_in_old: "Ret c \<in> set as \<Longrightarrow> c \<in> set (old_text as)"
  by (auto simp: old_text_def intro!: bexI[of _ "Ret c"])

lemma ins_in_old: "Ins S \<in> set as \<Longrightarrow> set S \<subseteq> set (old_text as)"
  by (auto simp: old_text_def intro!: bexI[of _ "Ins S"])

lemma old_all:
  "list_all Q (new_text as) \<Longrightarrow> inserted (list_all Q) as \<Longrightarrow> list_all Q (old_text as)"
proof (induction as)
  case Nil
  then show ?case by simp
next
  case (Cons a as)
  have i: "inserted (list_all Q) as" using Cons.prems(2) by (simp add: inserted_def)
  show ?case
  proof (cases a)
    case (Ret c)
    then show ?thesis using Cons i by simp
  next
    case (Ins S)
    then have "list_all Q S" using Cons.prems(2) by (simp add: inserted_def)
    then show ?thesis using Cons i Ins by simp
  qed
qed

lemma old_nonempty:
  "new_text as \<noteq> [] \<Longrightarrow> inserted (\<lambda>S. S \<noteq> []) as \<Longrightarrow> old_text as \<noteq> []"
proof (cases as)
  case Nil
  assume "new_text as \<noteq> []"
  then show ?thesis using Nil by simp
next
  case (Cons a as')
  assume "inserted (\<lambda>S. S \<noteq> []) as"
  then show ?thesis using Cons by (cases a) (auto simp: inserted_def)
qed

lemma inserted_mono: "inserted Q as \<Longrightarrow> (\<And>S. Q S \<Longrightarrow> Q' S) \<Longrightarrow> inserted Q' as"
  by (auto simp: inserted_def)

lemma inserted_part: "inserted Q (as1 @ as2) \<Longrightarrow> inserted Q as1 \<and> inserted Q as2"
  by (auto simp: inserted_def)

lemma inserted_Cons: "inserted Q (a # as) \<Longrightarrow> inserted Q as"
  by (auto simp: inserted_def)

lemma lead_facts:
  assumes "lead g"
  shows "g \<noteq> []" "CHR ''['' \<notin> set g" "\<not> is_quote (hd g)" "is_quote (last g)"
    "list_all (\<lambda>c. \<not> is_quote c) (butlast g)"
proof -
  from assms obtain body q where g: "g = body @ [q]" "is_quote q" "body \<noteq> []"
    "list_all (\<lambda>c. \<not> is_quote c \<and> c \<noteq> CHR ''['' \<and> c \<noteq> CHR '']'') body"
    unfolding lead_def by blast
  show "g \<noteq> []" using g by simp
  show "CHR ''['' \<notin> set g" using g by (auto simp: list_all_iff is_quote_def)
  show "\<not> is_quote (hd g)" using g by (cases body) (auto simp: list_all_iff)
  show "is_quote (last g)" using g by simp
  show "list_all (\<lambda>c. \<not> is_quote c) (butlast g)" using g by (auto simp: list_all_iff)
qed

lemma lead_inside:
  assumes "lead (u @ g @ w)" "lead g"
  shows "w = []"
proof (rule ccontr)
  assume w: "w \<noteq> []"
  have "butlast (u @ g @ w) = u @ g @ butlast w" using w by (simp add: butlast_append)
  then have "list_all (\<lambda>c. \<not> is_quote c) g"
    using lead_facts(5)[OF assms(1)] by simp
  moreover have "last g \<in> set g" using lead_facts(1)[OF assms(2)] by simp
  ultimately show False using lead_facts(4)[OF assms(2)] by (auto simp: list_all_iff)
qed

lemma tok_part: "t1 @ t2 = tok \<Longrightarrow> set t1 \<subseteq> set tok \<and> set t2 \<subseteq> set tok"
  by (metis set_append Un_upper1 Un_upper2)

lemma tok_last: "t1 @ t2 = tok \<Longrightarrow> t2 \<noteq> [] \<Longrightarrow> CHR '']'' \<in> set t2"
proof -
  assume a: "t1 @ t2 = tok" "t2 \<noteq> []"
  then have "last t2 = last tok" by (metis last_appendR)
  then have "last t2 = CHR '']''" by simp
  then show ?thesis using a(2) by (metis last_in_set)
qed

lemma lead_no_inner:
  assumes "\<And>g1 S g3. P g1 S g3 \<Longrightarrow> lead g1"
  shows "no_inner P"
  unfolding no_inner_def
proof (intro allI impI notI)
  fix g1 S g3 rest t1 t2 v
  assume a: "P g1 S g3 \<and> t1 \<noteq> [] \<and> t2 \<noteq> [] \<and> t1 @ t2 = tok" and e: "g1 @ S @ g3 @ rest = t2 @ v"
  from assms a obtain body q where g: "g1 = body @ [q]" "is_quote q"
    "list_all (\<lambda>c. \<not> is_quote c \<and> c \<noteq> CHR ''['' \<and> c \<noteq> CHR '']'') body"
    unfolding lead_def by blast
  have br: "CHR '']'' \<in> set t2" using tok_last a by blast
  have sub: "set t2 \<subseteq> set tok" using tok_part a by blast
  from e g have "body @ (q # S @ g3 @ rest) = t2 @ v" by simp
  then obtain w where "(body = t2 @ w \<and> v = w @ q # S @ g3 @ rest)
      \<or> (body @ w = t2 \<and> q # S @ g3 @ rest = w @ v)"
    unfolding append_eq_append_conv2 by blast
  then show False
  proof
    assume "body = t2 @ w \<and> v = w @ q # S @ g3 @ rest"
    then have "CHR '']'' \<in> set body" using br by auto
    then show False using g(3) by (auto simp: list_all_iff)
  next
    assume b: "body @ w = t2 \<and> q # S @ g3 @ rest = w @ v"
    show False
    proof (cases w)
      case Nil
      then have "CHR '']'' \<in> set body" using br b by auto
      then show False using g(3) by (auto simp: list_all_iff)
    next
      case (Cons d w')
      then have "q \<in> set t2" using b by auto
      then have "q \<in> set tok" using sub by blast
      then show False using g(2) by (auto simp: is_quote_def)
    qed
  qed
qed

lemma famQ_lead: "famQ P \<Longrightarrow> P g1 S g3 \<Longrightarrow> lead g1"
  unfolding famQ_def by blast

lemma famQ_no_inner: "famQ P \<Longrightarrow> no_inner P"
  using lead_no_inner[of P] famQ_lead[of P] by blast

lemma famQL_no_inner: "famQL P \<Longrightarrow> no_inner P"
  using lead_no_inner[of P] unfolding famQL_def by blast

lemma marked_facts:
  assumes "marked S"
  shows "S \<noteq> []" "CHR ''['' \<notin> set S" "CHR '']'' \<notin> set S" "\<not> set S \<subseteq> set tok"
    "list_all bland S"
proof -
  from assms have s: "S \<noteq> []" "list_all bland S" "list_ex (\<lambda>c. c \<notin> set ''REDACTED'') S"
    unfolding marked_def by auto
  show "S \<noteq> []" "list_all bland S" using s by auto
  show 1: "CHR ''['' \<notin> set S" using s(2) by (auto simp: list_all_iff bland_def)
  show 2: "CHR '']'' \<notin> set S" using s(2) by (auto simp: list_all_iff bland_def)
  from s(3) obtain c where c: "c \<in> set S" "c \<notin> set ''REDACTED''" by (auto simp: list_ex_iff)
  have "c \<noteq> CHR ''['' \<and> c \<noteq> CHR '']''" using c(1) 1 2 by auto
  then have "c \<notin> set tok" using c(2) by simp
  then show "\<not> set S \<subseteq> set tok" using c(1) by blast
qed

lemma famT_no_inner:
  assumes "famT P"
  shows "no_inner P"
  unfolding no_inner_def
proof (intro allI impI notI)
  fix g1 S g3 rest t1 t2 v
  assume a: "P g1 S g3 \<and> t1 \<noteq> [] \<and> t2 \<noteq> [] \<and> t1 @ t2 = tok" and e: "g1 @ S @ g3 @ rest = t2 @ v"
  from assms a have g: "g1 = []" "g3 = []" "marked S" unfolding famT_def by auto
  have br: "CHR '']'' \<in> set t2" using tok_last a by blast
  have sub: "set t2 \<subseteq> set tok" using tok_part a by blast
  from e g have "S @ rest = t2 @ v" by simp
  then obtain w where "(S = t2 @ w \<and> v = w @ rest) \<or> (S @ w = t2 \<and> rest = w @ v)"
    unfolding append_eq_append_conv2 by blast
  then show False
  proof
    assume "S = t2 @ w \<and> v = w @ rest"
    then show False using br marked_facts(3)[OF g(3)] by auto
  next
    assume "S @ w = t2 \<and> rest = w @ v"
    then have "set S \<subseteq> set tok" using sub by auto
    then show False using marked_facts(4)[OF g(3)] by simp
  qed
qed

lemma lower_not_tok: "is_lower c \<Longrightarrow> c \<notin> set tok \<and> c \<noteq> CHR ''@'' \<and> c \<noteq> CHR '':''"
  by (auto simp: is_lower_def between_def ord_def)

lemma lit_ok_facts:
  assumes "lit_ok lit"
  shows "lit \<noteq> []" "hd lit \<notin> set tok" "hd lit \<noteq> CHR ''@''" "CHR ''['' \<notin> set lit"
    "last lit \<noteq> CHR '':''" "length (filter (\<lambda>c. c = CHR '':'') lit) = 1"
proof -
  from assms obtain sch where l: "lit = sch @ ''://''" "sch \<noteq> []" "list_all is_lower sch"
    unfolding lit_ok_def by blast
  have h: "hd lit = hd sch" "is_lower (hd sch)" using l by (cases sch; simp)+
  have n: "\<And>c. c \<in> set sch \<Longrightarrow> c \<notin> set tok \<and> c \<noteq> CHR '':''"
    using l(3) lower_not_tok by (auto simp: list_all_iff)
  show "lit \<noteq> []" using l by simp
  show "hd lit \<notin> set tok" "hd lit \<noteq> CHR ''@''" using h lower_not_tok by auto
  show "CHR ''['' \<notin> set lit" using l n by auto
  show "last lit \<noteq> CHR '':''" using l by simp
  have "filter (\<lambda>c. c = CHR '':'') sch = []" using n by (auto simp: filter_empty_conv)
  then show "length (filter (\<lambda>c. c = CHR '':'') lit) = 1" using l by simp
qed

lemma famD_no_inner:
  assumes "famD P"
  shows "no_inner P"
  unfolding no_inner_def
proof (intro allI impI notI)
  fix g1 S g3 rest t1 t2 v
  assume a: "P g1 S g3 \<and> t1 \<noteq> [] \<and> t2 \<noteq> [] \<and> t1 @ t2 = tok" and e: "g1 @ S @ g3 @ rest = t2 @ v"
  from assms a obtain lit x where g: "lit_ok lit" "g1 = lit @ x @ '':''"
    unfolding famD_def by auto
  have sub: "set t2 \<subseteq> set tok" using tok_part a by blast
  have "hd (g1 @ S @ g3 @ rest) = hd lit" using g lit_ok_facts(1)[OF g(1)] by simp
  moreover have "hd (t2 @ v) = hd t2" using a by simp
  moreover have "hd t2 \<in> set t2" using a by simp
  ultimately show False using e sub lit_ok_facts(2)[OF g(1)] by auto
qed

subsection \<open>A later rule leaves a rule for quoted values settled\<close>

text \<open>
  If a text is settled for a rule for quoted values, it still is after any shipped rule was
  applied to it. A match found afterwards either holds nothing the later rule put there, and
  was there before; or it is traced back to a match in the text before, which the rule had
  settled.
\<close>

lemma flanked_left:
  "flanked L R as \<Longrightarrow> as = A @ Ins S # B \<Longrightarrow> A \<noteq> [] \<and> (\<exists>c. last A = Ret c \<and> L c)"
  unfolding flanked_def by blast

lemma flanked_right:
  "flanked L R as \<Longrightarrow> as = A @ Ins S # B \<Longrightarrow> B \<noteq> [] \<and> (\<exists>c. hd B = Ret c \<and> R c)"
  unfolding flanked_def by blast

lemma quote_not_tok: "is_quote q \<Longrightarrow> q \<notin> set tok \<and> q \<noteq> CHR '':'' \<and> q \<noteq> CHR ''@''"
  by (auto simp: is_quote_def)

lemma first_not:
  assumes "x \<in> set z" "\<not> Q x"
  shows "\<exists>T c z'. z = T @ c # z' \<and> list_all Q T \<and> \<not> Q c"
proof -
  from assms have "\<exists>x\<in>set z. \<not> Q x" by blast
  from split_list_first_prop[OF this] obtain T c z' where "z = T @ c # z'" "\<not> Q c"
    "\<forall>y\<in>set T. \<not> \<not> Q y" by blast
  then show ?thesis by (auto simp: list_all_iff)
qed

lemma Q_decomp:
  assumes "famQ P" "P g1 S' g3" "new_text as = pre @ g1 @ S' @ g3 @ post"
  shows "\<exists>as1 a2 q as5. as = as1 @ map Ret g1 @ a2 @ Ret q # as5 \<and> new_text a2 = S'
    \<and> g3 = [q] \<and> is_quote q \<and> list_all (\<lambda>c. \<not> is_quote c) S' \<and> lead g1
    \<and> (\<forall>T q'. list_all (\<lambda>c. \<not> is_quote c) T \<and> is_quote q' \<longrightarrow> P g1 T [q'])"
proof -
  from assms(1) obtain A where A: "\<And>g. A g \<Longrightarrow> lead g"
    and P: "P = (\<lambda>g1 S g3. A g1 \<and> list_all (\<lambda>c. \<not> is_quote c) S \<and> (\<exists>q. g3 = [q] \<and> is_quote q))"
    unfolding famQ_def by blast
  from assms(2) P obtain q where p: "A g1" "list_all (\<lambda>c. \<not> is_quote c) S'" "g3 = [q]"
    "is_quote q" by auto
  have l: "lead g1" using A p(1) .
  from aligned_start[OF famQ_no_inner[OF assms(1)] assms(2,3)] obtain as1 as2
    where 1: "as = as1 @ as2" "new_text as1 = pre" "new_text as2 = g1 @ S' @ g3 @ post" by blast
  from ret_prefix[OF 1(3) lead_facts(2)[OF l]] obtain as3
    where 2: "as2 = map Ret g1 @ as3" "new_text as3 = S' @ g3 @ post" by blast
  have "new_text as3 = S' @ q # post" using 2(2) p(3) by simp
  from split_at_char[OF this] quote_not_tok[OF p(4)] obtain a2 as5
    where 3: "as3 = a2 @ Ret q # as5" "new_text a2 = S'" "new_text as5 = post" by blast
  have c: "\<forall>T q'. list_all (\<lambda>c. \<not> is_quote c) T \<and> is_quote q' \<longrightarrow> P g1 T [q']"
    using P p(1) by simp
  have "as = as1 @ map Ret g1 @ a2 @ Ret q # as5" using 1 2 3 by simp
  then show ?thesis using 3(2) p(3) p(4) p(2) l c by blast
qed

text \<open>A stretch of text with none of the characters next to which a rule inserts.\<close>

lemma ret_stretch:
  assumes f: "flanked L R as" and as: "as = as1 @ map Ret lit @ aX @ rest"
    and lit: "lit \<noteq> []" "\<not> L (last lit)" and x: "\<And>c. c \<in> set (new_text aX) \<Longrightarrow> \<not> L c"
  shows "aX = map Ret (new_text aX)"
proof -
  from ret_or_ins[of aX] show ?thesis
  proof
    assume "\<exists>w S r. aX = map Ret w @ Ins S # r"
    then obtain w S r where a: "aX = map Ret w @ Ins S # r" by blast
    have "as = (as1 @ map Ret lit @ map Ret w) @ Ins S # (r @ rest)" using as a by simp
    from flanked_left[OF f this] obtain c where c: "last (as1 @ map Ret lit @ map Ret w) = Ret c"
      "L c" by blast
    show ?thesis
    proof (cases "w = []")
      case True
      then have "c = last lit" using c(1) lit(1) by (simp add: last_map)
      then show ?thesis using c(2) lit(2) by simp
    next
      case False
      then have "c = last w" using c(1) by (simp add: last_map)
      then have "c \<in> set (new_text aX)" using False a by simp
      then show ?thesis using x c(2) by blast
    qed
  qed
qed

lemma P_plain:
  assumes ni: "no_inner P" and bf: "\<And>g1 S g3. P g1 S g3 \<Longrightarrow> CHR ''['' \<notin> set (g1 @ S @ g3)"
    and st: "settled P (old_text as)"
  shows "settled P (new_text as)"
  unfolding settled_def
proof (intro allI impI)
  fix pre g1 S g3 post
  assume a: "new_text as = pre @ g1 @ S @ g3 @ post \<and> P g1 S g3"
  from aligned_start[OF ni] a obtain as1 as2
    where 1: "as = as1 @ as2" "new_text as2 = g1 @ S @ g3 @ post" by blast
  have "new_text as2 = (g1 @ S @ g3) @ post" using 1(2) by simp
  from ret_prefix[OF this bf] a obtain as3 where "as2 = map Ret (g1 @ S @ g3) @ as3" by blast
  then have "old_text as = old_text as1 @ g1 @ S @ g3 @ old_text as3 \<and> P g1 S g3"
    using 1(1) a by simp
  with st show "S = tok" unfolding settled_def by blast
qed

lemma P_T:
  assumes "famT P" "settled P (old_text as)"
  shows "settled P (new_text as)"
proof (rule P_plain[OF famT_no_inner[OF assms(1)] _ assms(2)])
  fix g1 S g3
  assume "P g1 S g3"
  with assms(1) have "g1 = []" "g3 = []" "marked S" unfolding famT_def by auto
  then show "CHR ''['' \<notin> set (g1 @ S @ g3)" using marked_facts(2) by simp
qed

lemma P_QL:
  assumes "famQL P" "settled P (old_text as)"
  shows "settled P (new_text as)"
proof (rule P_plain[OF famQL_no_inner[OF assms(1)] _ assms(2)])
  fix g1 S g3
  assume "P g1 S g3"
  with assms(1) obtain q where p: "lead g1" "list_all bland S" "g3 = [q]" "is_quote q"
    unfolding famQL_def by blast
  show "CHR ''['' \<notin> set (g1 @ S @ g3)"
    using lead_facts(2)[OF p(1)] p(2,3) quote_not_tok[OF p(4)]
    by (auto simp: list_all_iff bland_def)
qed

lemma P_Q_Q:
  assumes fam: "famQ P" and k: "kindQ as" and st: "settled P (old_text as)"
  shows "settled P (new_text as)"
  unfolding settled_def
proof (intro allI impI)
  fix pre g1 S' g3 post
  assume a: "new_text as = pre @ g1 @ S' @ g3 @ post \<and> P g1 S' g3"
  from a have p: "P g1 S' g3" and n: "new_text as = pre @ g1 @ S' @ g3 @ post" by simp_all
  from Q_decomp[OF fam p n] obtain as1 a2 q as5
    where d: "as = as1 @ map Ret g1 @ a2 @ Ret q # as5" "new_text a2 = S'" "g3 = [q]"
      "is_quote q" "list_all (\<lambda>c. \<not> is_quote c) S'" "lead g1" by blast
  from ret_or_ins[of a2] show "S' = tok"
  proof
    assume "a2 = map Ret (new_text a2)"
    then have "a2 = map Ret S'" using d(2) by simp
    then have "old_text as = old_text as1 @ g1 @ S' @ g3 @ old_text as5 \<and> P g1 S' g3"
      using d(1,3) a by simp
    with st show ?thesis unfolding settled_def by blast
  next
    assume "\<exists>w S r. a2 = map Ret w @ Ins S # r"
    then obtain w S r where a2: "a2 = map Ret w @ Ins S # r" by blast
    have e: "as = (as1 @ map Ret g1 @ map Ret w) @ Ins S # (r @ Ret q # as5)"
      using d(1) a2 by simp
    have nq: "\<And>c. c \<in> set S' \<Longrightarrow> \<not> is_quote c" using d(5) by (auto simp: list_all_iff)
    from flanked_left[OF k[unfolded kindQ_def] e] obtain c
      where c: "last (as1 @ map Ret g1 @ map Ret w) = Ret c" "is_quote c" by blast
    have w: "w = []"
    proof (rule ccontr)
      assume wn: "w \<noteq> []"
      then have "c = last w" using c(1) by (simp add: last_map)
      moreover have "last w \<in> set w" using wn by simp
      moreover have "S' = w @ tok @ new_text r" using d(2) a2 by simp
      ultimately have "c \<in> set S'" by simp
      then show False using nq c(2) by blast
    qed
    from flanked_right[OF k[unfolded kindQ_def] e] obtain c'
      where c': "hd (r @ Ret q # as5) = Ret c'" "is_quote c'" by blast
    have r: "r = []"
    proof (rule ccontr)
      assume "r \<noteq> []"
      then have "Ret c' \<in> set r" using c'(1) by (cases r) auto
      then have "c' \<in> set (new_text r)" by (rule ret_in_new)
      then have "c' \<in> set S'" using d(2) a2 by auto
      then show False using nq c'(2) by blast
    qed
    show ?thesis using d(2) a2 w r by simp
  qed
qed

lemma P_Q_T:
  assumes fam: "famQ P" and k: "kindT as" and st: "settled P (old_text as)"
  shows "settled P (new_text as)"
  unfolding settled_def
proof (intro allI impI)
  fix pre g1 S' g3 post
  assume a: "new_text as = pre @ g1 @ S' @ g3 @ post \<and> P g1 S' g3"
  from a have p: "P g1 S' g3" and n: "new_text as = pre @ g1 @ S' @ g3 @ post" by simp_all
  from Q_decomp[OF fam p n] obtain as1 a2 q as5
    where d: "as = as1 @ map Ret g1 @ a2 @ Ret q # as5" "new_text a2 = S'" "g3 = [q]"
      "is_quote q" "list_all (\<lambda>c. \<not> is_quote c) S'" "lead g1"
      and c0: "\<forall>T q'. list_all (\<lambda>c. \<not> is_quote c) T \<and> is_quote q' \<longrightarrow> P g1 T [q']" by blast
  have c: "\<And>T q'. list_all (\<lambda>c. \<not> is_quote c) T \<Longrightarrow> is_quote q' \<Longrightarrow> P g1 T [q']"
    using c0 by blast
  have i: "inserted marked a2" using k d(1) by (auto simp: kindT_def inserted_def)
  have "inserted (list_all (\<lambda>c. \<not> is_quote c)) a2"
    by (rule inserted_mono[OF i]) (auto simp: marked_def bland_def list_all_iff)
  from old_all[OF _ this] d(2,5) have "list_all (\<lambda>c. \<not> is_quote c) (old_text a2)" by simp
  from c[OF this d(4)]
  have "old_text as = old_text as1 @ g1 @ old_text a2 @ [q] @ old_text as5 \<and> P g1 (old_text a2) [q]"
    using d(1) by simp
  with st have o: "old_text a2 = tok" unfolding settled_def by blast
  from ret_or_ins[of a2] show "S' = tok"
  proof
    assume "a2 = map Ret (new_text a2)"
    then have "old_text a2 = new_text a2" by (metis old_text_simps(5))
    then show ?thesis using o d(2) by simp
  next
    assume "\<exists>w S r. a2 = map Ret w @ Ins S # r"
    then obtain w S r where a2: "a2 = map Ret w @ Ins S # r" by blast
    then have "Ins S \<in> set a2" by simp
    from ins_in_old[OF this] o have "set S \<subseteq> set tok" by simp
    moreover have "marked S" using i a2 by (simp add: inserted_def)
    ultimately show ?thesis using marked_facts(4) by blast
  qed
qed

lemma P_Q_D:
  assumes fam: "famQ P" and k: "kindD as" and st: "settled P (old_text as)"
  shows "settled P (new_text as)"
  unfolding settled_def
proof (intro allI impI)
  fix pre g1 S' g3 post
  assume a: "new_text as = pre @ g1 @ S' @ g3 @ post \<and> P g1 S' g3"
  from a have p: "P g1 S' g3" and n: "new_text as = pre @ g1 @ S' @ g3 @ post" by simp_all
  from Q_decomp[OF fam p n] obtain as1 a2 q as5
    where d: "as = as1 @ map Ret g1 @ a2 @ Ret q # as5" "new_text a2 = S'" "g3 = [q]"
      "is_quote q" "list_all (\<lambda>c. \<not> is_quote c) S'" "lead g1"
      and c0: "\<forall>T q'. list_all (\<lambda>c. \<not> is_quote c) T \<and> is_quote q' \<longrightarrow> P g1 T [q']" by blast
  have c: "\<And>T q'. list_all (\<lambda>c. \<not> is_quote c) T \<Longrightarrow> is_quote q' \<Longrightarrow> P g1 T [q']"
    using c0 by blast
  from ret_or_ins[of a2] show "S' = tok"
  proof
    assume "a2 = map Ret (new_text a2)"
    then have "a2 = map Ret S'" using d(2) by simp
    then have "old_text as = old_text as1 @ g1 @ S' @ g3 @ old_text as5 \<and> P g1 S' g3"
      using d(1,3) a by simp
    with st show ?thesis unfolding settled_def by blast
  next
    assume "\<exists>w S r. a2 = map Ret w @ Ins S # r"
    then obtain w S r where a2: "a2 = map Ret w @ Ins S # r" by blast
    have e: "as = (as1 @ map Ret g1 @ map Ret w) @ Ins S # (r @ Ret q # as5)"
      using d(1) a2 by simp
    from flanked_left[OF k[unfolded kindD_def, THEN conjunct1] e]
    have l: "last (as1 @ map Ret g1 @ map Ret w) = Ret (CHR '':'')" by blast
    have g: "g1 \<noteq> []" "is_quote (last g1)" using lead_facts[OF d(6)] by auto
    have w: "w \<noteq> []"
    proof
      assume "w = []"
      then have "last g1 = CHR '':''" using l g(1) by (simp add: last_map)
      then show False using g(2) by (simp add: is_quote_def)
    qed
    then have lw: "last w = CHR '':''" using l by (simp add: last_map)
    have "S' = w @ tok @ new_text r" using d(2) a2 by simp
    then have wq: "list_all (\<lambda>c. \<not> is_quote c) w" using d(5) by simp
    have "q \<in> set (S @ old_text r @ q # old_text as5)" by simp
    from first_not[OF this, of "\<lambda>c. \<not> is_quote c"] d(4) obtain T q' z'
      where z: "S @ old_text r @ q # old_text as5 = T @ q' # z'"
        "list_all (\<lambda>c. \<not> is_quote c) T" "is_quote q'" by auto
    have "list_all (\<lambda>c. \<not> is_quote c) (w @ T)" using wq z(2) by simp
    from c[OF this z(3)]
    have "old_text as = old_text as1 @ g1 @ (w @ T) @ [q'] @ z' \<and> P g1 (w @ T) [q']"
      using d(1) a2 z(1) by simp
    with st have "w @ T = tok" unfolding settled_def by blast
    from tok_part[OF this] have "set w \<subseteq> set tok" by simp
    moreover have "last w \<in> set w" using w by simp
    ultimately show ?thesis using lw by auto
  qed
qed

subsection \<open>A later rule leaves a database rule settled\<close>

text \<open>
  The same for a database rule and the rules listed after the database rules.
\<close>

lemma D_shape:
  assumes "famD P"
  shows "\<exists>lit. lit_ok lit
    \<and> (\<forall>h1 T h3. P h1 T h3 \<longrightarrow>
       (\<exists>y. h1 = lit @ y @ '':'' \<and> y \<noteq> [] \<and> CHR '':'' \<notin> set y) \<and> T \<noteq> [] \<and> CHR ''@'' \<notin> set T
       \<and> h3 = ''@'')
    \<and> (\<forall>y T. y \<noteq> [] \<and> CHR '':'' \<notin> set y \<and> T \<noteq> [] \<and> CHR ''@'' \<notin> set T
        \<longrightarrow> P (lit @ y @ '':'') T ''@'')"
proof -
  from assms obtain lit where lit: "lit_ok lit"
    and P: "P = (\<lambda>g1 S g3. (\<exists>x. g1 = lit @ x @ '':'' \<and> x \<noteq> [] \<and> CHR '':'' \<notin> set x)
                \<and> S \<noteq> [] \<and> CHR ''@'' \<notin> set S \<and> g3 = ''@'')"
    unfolding famD_def by blast
  have 1: "\<forall>h1 T h3. P h1 T h3 \<longrightarrow>
       (\<exists>y. h1 = lit @ y @ '':'' \<and> y \<noteq> [] \<and> CHR '':'' \<notin> set y) \<and> T \<noteq> [] \<and> CHR ''@'' \<notin> set T
       \<and> h3 = ''@''" by (simp add: P)
  have 2: "\<forall>y T. y \<noteq> [] \<and> CHR '':'' \<notin> set y \<and> T \<noteq> [] \<and> CHR ''@'' \<notin> set T
        \<longrightarrow> P (lit @ y @ '':'') T ''@''" by (simp add: P)
  show ?thesis using lit 1 2 by blast
qed

lemma D_split:
  assumes fam: "famD P" and lit: "lit_ok lit" and g1: "g1 = lit @ x @ '':''"
    and p: "P g1 S' ''@''" and n: "new_text as = pre @ g1 @ S' @ ''@'' @ post"
  shows "\<exists>as1 aX a2 as5.
    as = as1 @ map Ret lit @ aX @ Ret (CHR '':'') # a2 @ Ret (CHR ''@'') # as5
    \<and> new_text aX = x \<and> new_text a2 = S' \<and> new_text as1 = pre \<and> new_text as5 = post"
proof -
  from aligned_start[OF famD_no_inner[OF fam] p n] obtain as1 as2
    where 1: "as = as1 @ as2" "new_text as1 = pre" "new_text as2 = g1 @ S' @ ''@'' @ post"
    by blast
  have "new_text as2 = lit @ (x @ '':'' @ S' @ ''@'' @ post)" using 1(3) g1 by simp
  from ret_prefix[OF this lit_ok_facts(4)[OF lit]] obtain as3
    where 2: "as2 = map Ret lit @ as3" "new_text as3 = x @ '':'' @ S' @ ''@'' @ post" by blast
  have "new_text as3 = x @ CHR '':'' # (S' @ ''@'' @ post)" using 2(2) by simp
  from split_at_char[OF this] obtain aX as4
    where 3: "as3 = aX @ Ret (CHR '':'') # as4" "new_text aX = x"
      "new_text as4 = S' @ ''@'' @ post" by auto
  have "new_text as4 = S' @ CHR ''@'' # post" using 3(3) by simp
  from split_at_char[OF this] obtain a2 as5
    where 4: "as4 = a2 @ Ret (CHR ''@'') # as5" "new_text a2 = S'" "new_text as5 = post" by auto
  have "as = as1 @ map Ret lit @ aX @ Ret (CHR '':'') # a2 @ Ret (CHR ''@'') # as5"
    using 1 2 3 4 by simp
  then show ?thesis using 3(2) 4(2) 1(2) 4(3) by blast
qed

lemma P_D_D:
  assumes fam: "famD P" and k: "kindD as" and st: "settled P (old_text as)"
  shows "settled P (new_text as)"
  unfolding settled_def
proof (intro allI impI)
  fix pre g1 S' g3 post
  assume a: "new_text as = pre @ g1 @ S' @ g3 @ post \<and> P g1 S' g3"
  from D_shape[OF fam] obtain lit where lit: "lit_ok lit"
    and sh0: "\<forall>h1 T h3. P h1 T h3 \<longrightarrow>
       (\<exists>y. h1 = lit @ y @ '':'' \<and> y \<noteq> [] \<and> CHR '':'' \<notin> set y) \<and> T \<noteq> [] \<and> CHR ''@'' \<notin> set T
       \<and> h3 = ''@''"
    and co0: "\<forall>y T. y \<noteq> [] \<and> CHR '':'' \<notin> set y \<and> T \<noteq> [] \<and> CHR ''@'' \<notin> set T
        \<longrightarrow> P (lit @ y @ '':'') T ''@''" by blast
  have sh: "\<And>h1 T h3. P h1 T h3 \<Longrightarrow>
       (\<exists>y. h1 = lit @ y @ '':'' \<and> y \<noteq> [] \<and> CHR '':'' \<notin> set y) \<and> T \<noteq> [] \<and> CHR ''@'' \<notin> set T
       \<and> h3 = ''@''" using sh0 by blast
  have co: "\<And>y T. y \<noteq> [] \<Longrightarrow> CHR '':'' \<notin> set y \<Longrightarrow> T \<noteq> [] \<Longrightarrow> CHR ''@'' \<notin> set T
        \<Longrightarrow> P (lit @ y @ '':'') T ''@''" using co0 by blast
  from sh[of g1 S' g3] a obtain x where p: "g1 = lit @ x @ '':''" "x \<noteq> []" "CHR '':'' \<notin> set x"
    "S' \<noteq> []" "CHR ''@'' \<notin> set S'" "g3 = ''@''" by blast
  from a p(6) have p': "P g1 S' ''@''" and n: "new_text as = pre @ g1 @ S' @ ''@'' @ post"
    by simp_all
  from D_split[OF fam lit p(1) p' n] obtain as1 aX a2 as5
    where d: "as = as1 @ map Ret lit @ aX @ Ret (CHR '':'') # a2 @ Ret (CHR ''@'') # as5"
    "new_text aX = x" "new_text a2 = S'" by blast
  have f: "flanked (\<lambda>c. c = CHR '':'') (\<lambda>c. c = CHR ''@'') as" using k by (simp add: kindD_def)
  have i: "inserted (\<lambda>S. S \<noteq> [] \<and> CHR ''@'' \<notin> set S) as" using k by (simp add: kindD_def)
  have "aX = map Ret (new_text aX)"
    using ret_stretch[OF f d(1) lit_ok_facts(1)[OF lit] lit_ok_facts(5)[OF lit]] d(2) p(3)
    by blast
  then have aX: "aX = map Ret x" using d(2) by simp
  from ret_or_ins[of a2] show "S' = tok"
  proof
    assume "a2 = map Ret (new_text a2)"
    then have "a2 = map Ret S'" using d(3) by simp
    then have "old_text as = old_text as1 @ g1 @ S' @ g3 @ old_text as5 \<and> P g1 S' g3"
      using d(1) aX p(1,6) a by simp
    with st show ?thesis unfolding settled_def by blast
  next
    assume "\<exists>w S r. a2 = map Ret w @ Ins S # r"
    then obtain w S r where a2: "a2 = map Ret w @ Ins S # r" by blast
    have S': "S' = w @ tok @ new_text r" using d(3) a2 by simp
    have e: "as = (as1 @ map Ret lit @ aX @ [Ret (CHR '':'')] @ map Ret w) @ Ins S
        # (r @ Ret (CHR ''@'') # as5)"
      using d(1) a2 by simp
    from flanked_right[OF f e] have h: "hd (r @ Ret (CHR ''@'') # as5) = Ret (CHR ''@'')" by blast
    have r: "r = []"
    proof (rule ccontr)
      assume "r \<noteq> []"
      then have "Ret (CHR ''@'') \<in> set r" using h by (cases r) auto
      then have "CHR ''@'' \<in> set (new_text r)" by (rule ret_in_new)
      then show False using S' p(5) by simp
    qed
    show ?thesis
    proof (cases "w = []")
      case True
      then show ?thesis using S' r by simp
    next
      case False
      from flanked_left[OF f e]
      have "last (as1 @ map Ret lit @ aX @ [Ret (CHR '':'')] @ map Ret w) = Ret (CHR '':'')"
        by blast
      then have lw: "last w = CHR '':''" using False by (simp add: last_map)
      have "Ins S \<in> set as" using e by simp
      with i have S: "S \<noteq> []" "CHR ''@'' \<notin> set S" by (auto simp: inserted_def)
      have "CHR ''@'' \<notin> set (w @ S)" using S(2) S' p(5) by simp
      from co[OF p(2,3) _ this] S(1)
      have "old_text as = old_text as1 @ g1 @ (w @ S) @ ''@'' @ old_text as5
          \<and> P g1 (w @ S) ''@''"
        using d(1) aX a2 r p(1) by simp
      with st have "w @ S = tok" unfolding settled_def by blast
      from tok_part[OF this] have "set w \<subseteq> set tok" by simp
      moreover have "last w \<in> set w" using False by simp
      ultimately show ?thesis using lw by auto
    qed
  qed
qed

text \<open>What a database rule sees where an earlier text had tokens of plain characters.\<close>

lemma P_D_bland:
  assumes fam: "famD P" and i: "inserted (\<lambda>S. S \<noteq> [] \<and> list_all bland S) as"
    and st: "settled P (old_text as)" and n: "new_text as = pre @ g1 @ S' @ g3 @ post"
    and p: "P g1 S' g3"
  shows "\<exists>A a2 as5. as = A @ a2 @ Ret (CHR ''@'') # as5 \<and> new_text a2 = S'
    \<and> old_text a2 = tok"
proof -
  from D_shape[OF fam] obtain lit where lit: "lit_ok lit"
    and sh0: "\<forall>h1 T h3. P h1 T h3 \<longrightarrow>
       (\<exists>y. h1 = lit @ y @ '':'' \<and> y \<noteq> [] \<and> CHR '':'' \<notin> set y) \<and> T \<noteq> [] \<and> CHR ''@'' \<notin> set T
       \<and> h3 = ''@''"
    and co0: "\<forall>y T. y \<noteq> [] \<and> CHR '':'' \<notin> set y \<and> T \<noteq> [] \<and> CHR ''@'' \<notin> set T
        \<longrightarrow> P (lit @ y @ '':'') T ''@''" by blast
  have sh: "\<And>h1 T h3. P h1 T h3 \<Longrightarrow>
       (\<exists>y. h1 = lit @ y @ '':'' \<and> y \<noteq> [] \<and> CHR '':'' \<notin> set y) \<and> T \<noteq> [] \<and> CHR ''@'' \<notin> set T
       \<and> h3 = ''@''" using sh0 by blast
  have co: "\<And>y T. y \<noteq> [] \<Longrightarrow> CHR '':'' \<notin> set y \<Longrightarrow> T \<noteq> [] \<Longrightarrow> CHR ''@'' \<notin> set T
        \<Longrightarrow> P (lit @ y @ '':'') T ''@''" using co0 by blast
  from sh[OF p] obtain x where q: "g1 = lit @ x @ '':''" "x \<noteq> []" "CHR '':'' \<notin> set x"
    "S' \<noteq> []" "CHR ''@'' \<notin> set S'" "g3 = ''@''" by blast
  from p n q(6) have p': "P g1 S' ''@''" and n': "new_text as = pre @ g1 @ S' @ ''@'' @ post"
    by simp_all
  from D_split[OF fam lit q(1) p' n'] obtain as1 aX a2 as5
    where d: "as = as1 @ map Ret lit @ aX @ Ret (CHR '':'') # a2 @ Ret (CHR ''@'') # as5"
    "new_text aX = x" "new_text a2 = S'" by blast
  have iX: "inserted (\<lambda>S. S \<noteq> [] \<and> list_all bland S) aX"
    and i2: "inserted (\<lambda>S. S \<noteq> [] \<and> list_all bland S) a2"
    using i d(1) by (auto simp: inserted_def)
  have x1: "old_text aX \<noteq> []"
    by (rule old_nonempty[OF _ inserted_mono[OF iX]]) (simp_all add: d(2) q(2))
  have "list_all (\<lambda>c. c \<noteq> CHR '':'') (old_text aX)"
    by (rule old_all[OF _ inserted_mono[OF iX]])
      (use d(2) q(3) in \<open>auto simp: list_all_iff bland_def\<close>)
  then have x2: "CHR '':'' \<notin> set (old_text aX)" by (auto simp: list_all_iff)
  have s1: "old_text a2 \<noteq> []"
    by (rule old_nonempty[OF _ inserted_mono[OF i2]]) (simp_all add: d(3) q(4))
  have "list_all (\<lambda>c. c \<noteq> CHR ''@'') (old_text a2)"
    by (rule old_all[OF _ inserted_mono[OF i2]])
      (use d(3) q(5) in \<open>auto simp: list_all_iff bland_def\<close>)
  then have s2: "CHR ''@'' \<notin> set (old_text a2)" by (auto simp: list_all_iff)
  from co[OF x1 x2 s1 s2]
  have "old_text as = old_text as1 @ (lit @ old_text aX @ '':'') @ old_text a2 @ ''@''
      @ old_text as5 \<and> P (lit @ old_text aX @ '':'') (old_text a2) ''@''"
    using d(1) by simp
  with st have o: "old_text a2 = tok" unfolding settled_def by blast
  have "as = (as1 @ map Ret lit @ aX @ [Ret (CHR '':'')]) @ a2 @ Ret (CHR ''@'') # as5"
    using d(1) by simp
  then show ?thesis using d(3) o by blast
qed

lemma P_D_T:
  assumes fam: "famD P" and k: "kindT as" and st: "settled P (old_text as)"
  shows "settled P (new_text as)"
  unfolding settled_def
proof (intro allI impI)
  fix pre g1 S' g3 post
  assume a: "new_text as = pre @ g1 @ S' @ g3 @ post \<and> P g1 S' g3"
  have i: "inserted (\<lambda>S. S \<noteq> [] \<and> list_all bland S) as"
    by (rule inserted_mono[OF k[unfolded kindT_def]]) (simp add: marked_def)
  from a have n: "new_text as = pre @ g1 @ S' @ g3 @ post" and p: "P g1 S' g3" by simp_all
  from P_D_bland[OF fam i st n p] obtain A a2 as5
    where d: "as = A @ a2 @ Ret (CHR ''@'') # as5" "new_text a2 = S'" "old_text a2 = tok"
    by blast
  from ret_or_ins[of a2] show "S' = tok"
  proof
    assume "a2 = map Ret (new_text a2)"
    then have "old_text a2 = new_text a2" by (metis old_text_simps(5))
    then show ?thesis using d by simp
  next
    assume "\<exists>w S r. a2 = map Ret w @ Ins S # r"
    then obtain w S r where a2: "a2 = map Ret w @ Ins S # r" by blast
    then have "Ins S \<in> set a2" by simp
    from ins_in_old[OF this] d(3) have "set S \<subseteq> set tok" by simp
    moreover have "marked S" using k d(1) a2 by (simp add: kindT_def inserted_def)
    ultimately show ?thesis using marked_facts(4) by blast
  qed
qed

lemma P_D_QL:
  assumes fam: "famD P" and k: "kindQL as" and st: "settled P (old_text as)"
  shows "settled P (new_text as)"
  unfolding settled_def
proof (intro allI impI)
  fix pre g1 S' g3 post
  assume a: "new_text as = pre @ g1 @ S' @ g3 @ post \<and> P g1 S' g3"
  have i: "inserted (\<lambda>S. S \<noteq> [] \<and> list_all bland S) as" using k by (simp add: kindQL_def)
  have f: "flanked is_quote is_quote as" using k by (simp add: kindQL_def)
  from a have n: "new_text as = pre @ g1 @ S' @ g3 @ post" and p: "P g1 S' g3" by simp_all
  from P_D_bland[OF fam i st n p] obtain A a2 as5
    where d: "as = A @ a2 @ Ret (CHR ''@'') # as5" "new_text a2 = S'" "old_text a2 = tok"
    by blast
  from ret_or_ins[of a2] show "S' = tok"
  proof
    assume "a2 = map Ret (new_text a2)"
    then have "old_text a2 = new_text a2" by (metis old_text_simps(5))
    then show ?thesis using d by simp
  next
    assume "\<exists>w S r. a2 = map Ret w @ Ins S # r"
    then obtain w S r where a2: "a2 = map Ret w @ Ins S # r" by blast
    have e: "as = (A @ map Ret w) @ Ins S # (r @ Ret (CHR ''@'') # as5)" using d(1) a2 by simp
    from flanked_right[OF f e] obtain c
      where c: "hd (r @ Ret (CHR ''@'') # as5) = Ret c" "is_quote c" by blast
    show ?thesis
    proof (cases "r = []")
      case True
      then have "c = CHR ''@''" using c(1) by simp
      then show ?thesis using quote_not_tok[OF c(2)] by simp
    next
      case False
      then have "Ret c \<in> set r" using c(1) by (cases r) auto
      then have "Ret c \<in> set a2" using a2 by simp
      from ret_in_old[OF this] d(3) have "c \<in> set tok" by simp
      then show ?thesis using quote_not_tok[OF c(2)] by simp
    qed
  qed
qed

lemma cut_kindQ:
  assumes "famQ P" "cut P s as"
  shows "kindQ as"
  unfolding kindQ_def
proof (rule cut_flanked[OF _ assms(2)])
  fix g1 S g3
  assume p: "P g1 S g3"
  from famQ_lead[OF assms(1) p] have l: "lead g1" .
  from assms(1) p obtain q where "g3 = [q]" "is_quote q" unfolding famQ_def by auto
  then show "g1 \<noteq> [] \<and> is_quote (last g1) \<and> g3 \<noteq> [] \<and> is_quote (hd g3)"
    using lead_facts[OF l] by simp
qed

lemma cut_kindQL:
  assumes "famQL P" "cut P s as"
  shows "kindQL as"
  unfolding kindQL_def
proof
  show "flanked is_quote is_quote as"
  proof (rule cut_flanked[OF _ assms(2)])
    fix g1 S g3
    assume p: "P g1 S g3"
    with assms(1) obtain q where "lead g1" "g3 = [q]" "is_quote q" unfolding famQL_def by blast
    then show "g1 \<noteq> [] \<and> is_quote (last g1) \<and> g3 \<noteq> [] \<and> is_quote (hd g3)"
      using lead_facts[of g1] by simp
  qed
  show "inserted (\<lambda>S. S \<noteq> [] \<and> list_all bland S) as"
    by (rule cut_inserted[OF _ assms(2)]) (use assms(1) in \<open>auto simp: famQL_def\<close>)
qed

lemma kindQL_kindQ: "kindQL as \<Longrightarrow> kindQ as"
  by (simp add: kindQL_def kindQ_def)

lemma cut_kindT:
  assumes "famT P" "cut P s as"
  shows "kindT as"
  unfolding kindT_def
  by (rule cut_inserted[OF _ assms(2)]) (use assms(1) in \<open>auto simp: famT_def\<close>)

lemma cut_kindD:
  assumes "famD P" "cut P s as"
  shows "kindD as"
  unfolding kindD_def
proof
  from D_shape[OF assms(1)] obtain lit
    where sh0: "\<forall>h1 T h3. P h1 T h3 \<longrightarrow>
       (\<exists>y. h1 = lit @ y @ '':'' \<and> y \<noteq> [] \<and> CHR '':'' \<notin> set y) \<and> T \<noteq> [] \<and> CHR ''@'' \<notin> set T
       \<and> h3 = ''@''" by blast
  have sh: "\<And>h1 T h3. P h1 T h3 \<Longrightarrow>
       (\<exists>y. h1 = lit @ y @ '':'' \<and> y \<noteq> [] \<and> CHR '':'' \<notin> set y) \<and> T \<noteq> [] \<and> CHR ''@'' \<notin> set T
       \<and> h3 = ''@''" using sh0 by blast
  show "flanked (\<lambda>c. c = CHR '':'') (\<lambda>c. c = CHR ''@'') as"
  proof (rule cut_flanked[OF _ assms(2)])
    fix g1 S g3
    assume "P g1 S g3"
    from sh[OF this] show "g1 \<noteq> [] \<and> last g1 = CHR '':'' \<and> g3 \<noteq> [] \<and> hd g3 = CHR ''@''"
      by auto
  qed
  show "inserted (\<lambda>S. S \<noteq> [] \<and> CHR ''@'' \<notin> set S) as"
  proof (rule cut_inserted[OF _ assms(2)])
    fix g1 S g3
    assume "P g1 S g3"
    from sh[OF this] show "S \<noteq> [] \<and> CHR ''@'' \<notin> set S" by blast
  qed
qed

subsection \<open>A rule settles its own matches\<close>

text \<open>
  After a rule was applied, the text is settled for that rule: a match in the result starts
  either where the scan found nothing, or in what it kept of a match, and there only the
  token can stand in the place of the credential.
\<close>

lemma E_T:
  assumes fam: "famT P" and c: "cut P s as"
  shows "settled P (new_text as)"
  unfolding settled_def
proof (intro allI impI)
  fix pre g1 S' g3 post
  assume a: "new_text as = pre @ g1 @ S' @ g3 @ post \<and> P g1 S' g3"
  then have p: "P g1 S' g3" and n: "new_text as = pre @ g1 @ S' @ g3 @ post" by simp_all
  from fam p have g: "g1 = []" "g3 = []" "marked S'" unfolding famT_def by auto
  from aligned_start[OF famT_no_inner[OF fam] p n] obtain as1 as2
    where 1: "as = as1 @ as2" "new_text as2 = g1 @ S' @ g3 @ post" by blast
  have "new_text as2 = S' @ post" using 1(2) g by simp
  from ret_prefix[OF this marked_facts(2)[OF g(3)]] obtain as3
    where 2: "as2 = map Ret S' @ as3" by blast
  have ne: "S' \<noteq> []" using marked_facts(1)[OF g(3)] .
  from cut_suffix[OF c 1(1)] have False
  proof (elim disjE exE conjE)
    assume "as2 = []"
    then show False using 2 ne by simp
  next
    fix d as'
    assume "\<not> matches_at P (old_text as2)"
    moreover have "old_text as2 = g1 @ S' @ g3 @ old_text as3" using 2 g by simp
    ultimately show False using p unfolding matches_at_def by blast
  next
    fix u v S h3 as'
    assume h: "P (u @ v) S h3" "as2 = map Ret v @ Ins S # map Ret h3 @ as'"
    from fam h(1) have "u @ v = []" unfolding famT_def by blast
    then show False using h(2) 2 ne by (cases S') auto
  next
    fix h1 S u v as'
    assume h: "P h1 S (u @ v)" "v \<noteq> []"
    from fam h(1) have "u @ v = []" unfolding famT_def by blast
    then show False using h(2) by simp
  qed
  then show "S' = tok" ..
qed

lemma E_QL:
  assumes fam: "famQL P" and c: "cut P s as"
  shows "settled P (new_text as)"
  unfolding settled_def
proof (intro allI impI)
  fix pre g1 S' g3 post
  assume a: "new_text as = pre @ g1 @ S' @ g3 @ post \<and> P g1 S' g3"
  then have p: "P g1 S' g3" and n: "new_text as = pre @ g1 @ S' @ g3 @ post" by simp_all
  from fam p obtain q where g: "lead g1" "S' \<noteq> []" "list_all bland S'" "g3 = [q]" "is_quote q"
    unfolding famQL_def by blast
  from aligned_start[OF famQL_no_inner[OF fam] p n] obtain as1 as2
    where 1: "as = as1 @ as2" "new_text as2 = g1 @ S' @ g3 @ post" by blast
  have "new_text as2 = (g1 @ S' @ g3) @ post" using 1(2) by simp
  moreover have "CHR ''['' \<notin> set (g1 @ S' @ g3)"
    using lead_facts(2)[OF g(1)] g(3,4) quote_not_tok[OF g(5)]
    by (auto simp: list_all_iff bland_def)
  ultimately obtain as3 where 2: "as2 = map Ret (g1 @ S' @ g3) @ as3"
    using ret_prefix by blast
  have ne: "g1 \<noteq> []" using lead_facts(1)[OF g(1)] .
  from cut_suffix[OF c 1(1)] have False
  proof (elim disjE exE conjE)
    assume "as2 = []"
    then show False using 2 ne by simp
  next
    fix d as'
    assume "\<not> matches_at P (old_text as2)"
    moreover have "old_text as2 = g1 @ S' @ g3 @ old_text as3" using 2 by simp
    ultimately show False using p unfolding matches_at_def by blast
  next
    fix u v S h3 as'
    assume h: "P (u @ v) S h3" "as2 = map Ret v @ Ins S # map Ret h3 @ as'"
    from fam h(1) have l: "lead (u @ v)" unfolding famQL_def by blast
    from h(2) 2 have "map Ret (g1 @ S' @ g3) @ as3 = map Ret v @ Ins S # map Ret h3 @ as'"
      by simp
    from ret_ret[OF this] obtain w where "v = (g1 @ S' @ g3) @ w" by blast
    then have "lead (u @ g1 @ (S' @ g3 @ w))" using l by simp
    from lead_inside[OF this g(1)] show False using g(2) by simp
  next
    fix h1 S u v as'
    assume h: "P h1 S (u @ v)" "v \<noteq> []" "as2 = map Ret v @ as'"
    from fam h(1) obtain qh where qh: "u @ v = [qh]" "is_quote qh" unfolding famQL_def by blast
    then have "v = [qh]" using h(2) by (cases u) auto
    then have "hd g1 = qh" using h(3) 2 ne by (cases g1) auto
    then show False using lead_facts(3)[OF g(1)] qh(2) by simp
  qed
  then show "S' = tok" ..
qed

lemma E_Q:
  assumes fam: "famQ P" and c: "cut P s as"
  shows "settled P (new_text as)"
  unfolding settled_def
proof (intro allI impI)
  fix pre g1 S' g3 post
  assume a: "new_text as = pre @ g1 @ S' @ g3 @ post \<and> P g1 S' g3"
  then have p: "P g1 S' g3" and n: "new_text as = pre @ g1 @ S' @ g3 @ post" by simp_all
  from Q_decomp[OF fam p n] obtain as1 a2 q as5
    where d: "as = as1 @ map Ret g1 @ a2 @ Ret q # as5" "new_text a2 = S'" "g3 = [q]"
      "is_quote q" "list_all (\<lambda>c. \<not> is_quote c) S'" "lead g1"
      and co0: "\<forall>T q'. list_all (\<lambda>c. \<not> is_quote c) T \<and> is_quote q' \<longrightarrow> P g1 T [q']"
    by blast
  have co: "\<And>T q'. list_all (\<lambda>c. \<not> is_quote c) T \<Longrightarrow> is_quote q' \<Longrightarrow> P g1 T [q']"
    using co0 by blast
  have ne: "g1 \<noteq> []" using lead_facts(1)[OF d(6)] .
  have 1: "as = as1 @ (map Ret g1 @ a2 @ Ret q # as5)" using d(1) by simp
  from cut_suffix[OF c 1] show "S' = tok"
  proof (elim disjE exE conjE)
    assume "map Ret g1 @ a2 @ Ret q # as5 = []"
    then show ?thesis by simp
  next
    fix d' as'
    assume nm: "\<not> matches_at P (old_text (map Ret g1 @ a2 @ Ret q # as5))"
    have "q \<in> set (old_text a2 @ q # old_text as5)" by simp
    from first_not[OF this, of "\<lambda>c. \<not> is_quote c"] d(4) obtain T q' z'
      where z: "old_text a2 @ q # old_text as5 = T @ q' # z'"
        "list_all (\<lambda>c. \<not> is_quote c) T" "is_quote q'" by auto
    have "old_text (map Ret g1 @ a2 @ Ret q # as5) = g1 @ T @ [q'] @ z'" using z(1) by simp
    moreover have "P g1 T [q']" using co[OF z(2,3)] .
    ultimately show ?thesis using nm unfolding matches_at_def by blast
  next
    fix u v S h3 as'
    assume h: "P (u @ v) S h3"
      "map Ret g1 @ a2 @ Ret q # as5 = map Ret v @ Ins S # map Ret h3 @ as'"
    from famQ_lead[OF fam h(1)] have l: "lead (u @ v)" .
    from fam h(1) obtain qh where qh: "h3 = [qh]" "is_quote qh" unfolding famQ_def by auto
    from ret_ret[OF h(2)] obtain w where w: "v = g1 @ w"
      "a2 @ Ret q # as5 = map Ret w @ Ins S # map Ret h3 @ as'" by blast
    have "lead (u @ g1 @ w)" using l w(1) by simp
    from lead_inside[OF this d(6)] have "w = []" .
    with w(2) have "new_text (a2 @ Ret q # as5) = new_text (Ins S # map Ret h3 @ as')" by simp
    then have "S' @ q # new_text as5 = tok @ qh # new_text as'" using d(2) qh(1) by simp
    moreover have "list_all (\<lambda>c. \<not> is_quote c) tok" by (simp add: is_quote_def)
    ultimately show ?thesis using uniq_split[of "\<lambda>c. \<not> is_quote c" S' tok q qh] d(4,5) qh(2)
      by blast
  next
    fix h1 S u v as'
    assume h: "P h1 S (u @ v)" "v \<noteq> []" "map Ret g1 @ a2 @ Ret q # as5 = map Ret v @ as'"
    from fam h(1) obtain qh where qh: "u @ v = [qh]" "is_quote qh" unfolding famQ_def by auto
    then have "v = [qh]" using h(2) by (cases u) auto
    then have "hd g1 = qh" using h(3) ne by (cases g1) auto
    then show ?thesis using lead_facts(3)[OF d(6)] qh(2) by simp
  qed
qed

lemma colons:
  assumes "lit_ok lit" "CHR '':'' \<notin> set x" "CHR '':'' \<notin> set y"
    "u @ (lit @ x @ '':'') @ w = lit @ y @ '':''"
  shows "w = []"
proof (rule ccontr)
  assume w: "w \<noteq> []"
  let ?n = "\<lambda>t. length (filter (\<lambda>c. c = CHR '':'') t)"
  have 0: "\<And>t. CHR '':'' \<notin> set t \<Longrightarrow> ?n t = 0" by (auto simp: filter_empty_conv)
  have "?n (u @ (lit @ x @ '':'') @ w) = ?n (lit @ y @ '':'')" using assms(4) by simp
  then have "?n u + ?n w = 0"
    using lit_ok_facts(6)[OF assms(1)] 0[OF assms(2)] 0[OF assms(3)] by simp
  then have "CHR '':'' \<notin> set w" by (auto simp: filter_empty_conv)
  moreover have "last w = CHR '':''"
    using w arg_cong[OF assms(4), of last] by simp
  ultimately show False using w last_in_set by metis
qed

lemma E_D:
  assumes fam: "famD P" and c: "cut P s as"
  shows "settled P (new_text as)"
  unfolding settled_def
proof (intro allI impI)
  fix pre g1 S' g3 post
  assume a: "new_text as = pre @ g1 @ S' @ g3 @ post \<and> P g1 S' g3"
  from D_shape[OF fam] obtain lit where lit: "lit_ok lit"
    and sh0: "\<forall>h1 T h3. P h1 T h3 \<longrightarrow>
       (\<exists>y. h1 = lit @ y @ '':'' \<and> y \<noteq> [] \<and> CHR '':'' \<notin> set y) \<and> T \<noteq> [] \<and> CHR ''@'' \<notin> set T
       \<and> h3 = ''@''"
    and co0: "\<forall>y T. y \<noteq> [] \<and> CHR '':'' \<notin> set y \<and> T \<noteq> [] \<and> CHR ''@'' \<notin> set T
        \<longrightarrow> P (lit @ y @ '':'') T ''@''" by blast
  have sh: "\<And>h1 T h3. P h1 T h3 \<Longrightarrow>
       (\<exists>y. h1 = lit @ y @ '':'' \<and> y \<noteq> [] \<and> CHR '':'' \<notin> set y) \<and> T \<noteq> [] \<and> CHR ''@'' \<notin> set T
       \<and> h3 = ''@''" using sh0 by blast
  have co: "\<And>y T. y \<noteq> [] \<Longrightarrow> CHR '':'' \<notin> set y \<Longrightarrow> T \<noteq> [] \<Longrightarrow> CHR ''@'' \<notin> set T
        \<Longrightarrow> P (lit @ y @ '':'') T ''@''" using co0 by blast
  from sh[of g1 S' g3] a obtain x where p: "g1 = lit @ x @ '':''" "x \<noteq> []" "CHR '':'' \<notin> set x"
    "S' \<noteq> []" "CHR ''@'' \<notin> set S'" "g3 = ''@''" by blast
  from a p(6) have p': "P g1 S' ''@''" and n: "new_text as = pre @ g1 @ S' @ ''@'' @ post"
    by simp_all
  from D_split[OF fam lit p(1) p' n] obtain as1 aX a2 as5
    where d: "as = as1 @ map Ret lit @ aX @ Ret (CHR '':'') # a2 @ Ret (CHR ''@'') # as5"
    "new_text aX = x" "new_text a2 = S'" by blast
  have k: "kindD as" using cut_kindD[OF fam c] .
  have f: "flanked (\<lambda>c. c = CHR '':'') (\<lambda>c. c = CHR ''@'') as" using k by (simp add: kindD_def)
  have i: "inserted (\<lambda>S. S \<noteq> [] \<and> CHR ''@'' \<notin> set S) as" using k by (simp add: kindD_def)
  have "aX = map Ret (new_text aX)"
    using ret_stretch[OF f d(1) lit_ok_facts(1)[OF lit] lit_ok_facts(5)[OF lit]] d(2) p(3)
    by blast
  then have aX: "aX = map Ret x" using d(2) by simp
  have o: "old_text a2 \<noteq> [] \<and> CHR ''@'' \<notin> set (old_text a2)"
  proof -
    from ret_or_ins[of a2] show ?thesis
    proof
      assume "a2 = map Ret (new_text a2)"
      then have "old_text a2 = new_text a2" by (metis old_text_simps(5))
      then show ?thesis using d(3) p(4,5) by simp
    next
      assume "\<exists>w S r. a2 = map Ret w @ Ins S # r"
      then obtain w S r where a2: "a2 = map Ret w @ Ins S # r" by blast
      have S': "S' = w @ tok @ new_text r" using d(3) a2 by simp
      have e: "as = (as1 @ map Ret lit @ aX @ [Ret (CHR '':'')] @ map Ret w) @ Ins S
          # (r @ Ret (CHR ''@'') # as5)"
        using d(1) a2 by simp
      from flanked_right[OF f e] have h: "hd (r @ Ret (CHR ''@'') # as5) = Ret (CHR ''@'')"
        by blast
      have r: "r = []"
      proof (rule ccontr)
        assume "r \<noteq> []"
        then have "Ret (CHR ''@'') \<in> set r" using h by (cases r) auto
        then have "CHR ''@'' \<in> set (new_text r)" by (rule ret_in_new)
        then show False using S' p(5) by simp
      qed
      have "Ins S \<in> set as" using e by simp
      with i have S: "S \<noteq> []" "CHR ''@'' \<notin> set S" by (auto simp: inserted_def)
      show ?thesis using a2 r S S' p(5) by simp
    qed
  qed
  have 1: "as = as1 @ (map Ret g1 @ a2 @ Ret (CHR ''@'') # as5)" using d(1) aX p(1) by simp
  from cut_suffix[OF c 1] show "S' = tok"
  proof (elim disjE exE conjE)
    assume "map Ret g1 @ a2 @ Ret (CHR ''@'') # as5 = []"
    then show ?thesis by simp
  next
    fix d' as'
    assume nm: "\<not> matches_at P (old_text (map Ret g1 @ a2 @ Ret (CHR ''@'') # as5))"
    have "old_text (map Ret g1 @ a2 @ Ret (CHR ''@'') # as5)
        = g1 @ old_text a2 @ ''@'' @ old_text as5" by simp
    moreover have "P g1 (old_text a2) ''@''" using co[OF p(2,3)] o p(1) by simp
    ultimately show ?thesis using nm unfolding matches_at_def by blast
  next
    fix u v S h3 as'
    assume h: "P (u @ v) S h3"
      "map Ret g1 @ a2 @ Ret (CHR ''@'') # as5 = map Ret v @ Ins S # map Ret h3 @ as'"
    from sh[OF h(1)] obtain y where y: "u @ v = lit @ y @ '':''" "CHR '':'' \<notin> set y"
      "h3 = ''@''" by blast
    from ret_ret[OF h(2)] obtain w where w: "v = g1 @ w"
      "a2 @ Ret (CHR ''@'') # as5 = map Ret w @ Ins S # map Ret h3 @ as'" by blast
    have "u @ (lit @ x @ '':'') @ w = lit @ y @ '':''" using y(1) w(1) p(1) by simp
    from colons[OF lit p(3) y(2) this] have "w = []" .
    with w(2) have "new_text (a2 @ Ret (CHR ''@'') # as5) = new_text (Ins S # map Ret h3 @ as')"
      by simp
    then have "S' @ CHR ''@'' # new_text as5 = tok @ CHR ''@'' # new_text as'"
      using d(3) y(3) by simp
    moreover have "list_all (\<lambda>c. c \<noteq> CHR ''@'') tok" by simp
    moreover have "list_all (\<lambda>c. c \<noteq> CHR ''@'') S'" using p(5) by (auto simp: list_all_iff)
    ultimately show ?thesis
      using uniq_split[of "\<lambda>c. c \<noteq> CHR ''@''" S' tok "CHR ''@''" "CHR ''@''"] by blast
  next
    fix h1 S u v as'
    assume h: "P h1 S (u @ v)" "v \<noteq> []"
      "map Ret g1 @ a2 @ Ret (CHR ''@'') # as5 = map Ret v @ as'"
    from sh[OF h(1)] have "u @ v = ''@''" by blast
    then have "v = ''@''" using h(2) by (cases u) auto
    then have "hd lit = CHR ''@''" using h(3) p(1) lit_ok_facts(1)[OF lit] by (cases lit) auto
    then show ?thesis using lit_ok_facts(3)[OF lit] by simp
  qed
qed

subsection \<open>The shipped rules by family\<close>

text \<open>
  Each pattern of \<^verbatim>\<open>load_settings\<close> belongs to one of the four families.
\<close>

lemma all_chars_accepts: "all_chars Q r \<Longrightarrow> accepts r w \<Longrightarrow> list_all Q w"
proof (induction r arbitrary: w)
  case (Chars p m n g)
  then show ?case by (auto simp: list_all_iff)
next
  case (Seq a b)
  from Seq.prems(2) obtain u v where "w = u @ v" "accepts a u" "accepts b v"
    unfolding accepts_Seq by blast
  then show ?case using Seq.IH Seq.prems(1) by auto
qed auto

lemma minlen_accepts: "accepts r w \<Longrightarrow> minlen r \<le> length w"
proof (induction r arbitrary: w)
  case (Seq a b)
  from Seq.prems obtain u v where "w = u @ v" "accepts a u" "accepts b v"
    unfolding accepts_Seq by blast
  then show ?case using Seq.IH(1)[of u] Seq.IH(2)[of v] by (simp add: add_mono)
qed auto

lemma accepts_quote: "accepts quote g \<longleftrightarrow> (\<exists>q. g = [q] \<and> is_quote q)"
proof (cases g)
  case Nil
  then show ?thesis by (simp add: quote_def)
next
  case (Cons c g')
  then show ?thesis by (cases g') (auto simp: quote_def one_of_def is_quote_def)
qed

lemma accepts_unquoted: "accepts unquoted S \<longleftrightarrow> list_all (\<lambda>c. \<not> is_quote c) S"
  by (simp add: unquoted_def none_of_def is_quote_def list_all_iff)

lemma pre_lead_quote: "accepts quote g \<Longrightarrow> pre_lead g"
  unfolding accepts_quote pre_lead_def by auto

lemma pre_lead_Seq:
  assumes "all_chars okc a" "\<And>v. accepts b v \<Longrightarrow> pre_lead v" "accepts (Seq a b) g"
  shows "pre_lead g"
proof -
  from assms(3) obtain u v where g: "g = u @ v" "accepts a u" "accepts b v"
    unfolding accepts_Seq by blast
  from assms(2)[OF g(3)] obtain body q where v: "v = body @ [q]" "is_quote q" "list_all okc body"
    unfolding pre_lead_def by blast
  have "list_all okc u" using all_chars_accepts[OF assms(1) g(2)] .
  then have "g = (u @ body) @ [q] \<and> is_quote q \<and> list_all okc (u @ body)"
    using g(1) v by simp
  then show ?thesis unfolding pre_lead_def by blast
qed

lemma lead_of:
  assumes "pre_lead g" "2 \<le> length g"
  shows "lead g"
proof -
  from assms(1) obtain body q where g: "g = body @ [q]" "is_quote q" "list_all okc body"
    unfolding pre_lead_def by blast
  have "body \<noteq> []" using assms(2) g(1) by auto
  moreover have "list_all (\<lambda>c. \<not> is_quote c \<and> c \<noteq> CHR ''['' \<and> c \<noteq> CHR '']'') body"
    using g(3) by (simp add: okc_def list_all_iff)
  ultimately show ?thesis using g(1,2) unfolding lead_def by blast
qed

lemma space_okc: "is_space c \<Longrightarrow> okc c"
  by (auto simp: is_space_def between_def ord_def okc_def is_quote_def)

lemma alnum_bland: "is_alnum c \<Longrightarrow> bland c"
  by (auto simp: is_alnum_def is_lower_def is_upper_def is_digit_def between_def ord_def
      bland_def is_quote_def)

lemma word_okc: "is_word c \<Longrightarrow> okc c"
  by (auto simp: is_word_def is_alnum_def is_lower_def is_upper_def is_digit_def between_def
      ord_def okc_def is_quote_def)

lemma sep_okc: "one_of '':='' c \<Longrightarrow> okc c"
  by (auto simp: one_of_def okc_def is_quote_def)

lemma class_bland:
  "alnum_dash c \<Longrightarrow> bland c" "upper_digit c \<Longrightarrow> bland c" "alnum_us_dash c \<Longrightarrow> bland c"
  "base64ish c \<Longrightarrow> bland c" "lower_hex c \<Longrightarrow> bland c" "alnum_us c \<Longrightarrow> bland c"
proof -
  have u: "is_upper c \<Longrightarrow> bland c" "is_digit c \<Longrightarrow> bland c"
    using alnum_bland[of c] by (auto simp: is_alnum_def)
  show "alnum_dash c \<Longrightarrow> bland c" using alnum_bland[of c]
    by (auto simp: alnum_dash_def) (simp add: bland_def is_quote_def)
  show "upper_digit c \<Longrightarrow> bland c" using u by (auto simp: upper_digit_def)
  show "alnum_us_dash c \<Longrightarrow> bland c" using alnum_bland[of c]
    by (auto simp: alnum_us_dash_def) (simp_all add: bland_def is_quote_def)
  show "base64ish c \<Longrightarrow> bland c" using alnum_bland[of c]
    by (auto simp: base64ish_def) (simp_all add: bland_def is_quote_def)
  show "lower_hex c \<Longrightarrow> bland c" using u(2)
    by (auto simp: lower_hex_def) (auto simp: between_def ord_def bland_def is_quote_def)
  show "alnum_us c \<Longrightarrow> bland c" using alnum_bland[of c]
    by (auto simp: alnum_us_def) (simp add: bland_def is_quote_def)
qed

lemma lead_assigned:
  assumes "n \<noteq> []" "list_all okc n" "accepts (seqs [Lit n, ws_star, sep, ws_star, quote]) g"
  shows "lead g"
proof (rule lead_of)
  have s: "all_chars okc ws_star" "all_chars okc sep" "all_chars okc (Lit n)"
    using space_okc sep_okc assms(2) by (auto simp: ws_star_def sep_def)
  have 1: "\<And>v. accepts (Seq ws_star quote) v \<Longrightarrow> pre_lead v"
    by (rule pre_lead_Seq[OF s(1) pre_lead_quote])
  have 2: "\<And>v. accepts (Seq sep (Seq ws_star quote)) v \<Longrightarrow> pre_lead v"
    by (rule pre_lead_Seq[OF s(2) 1])
  have 3: "\<And>v. accepts (Seq ws_star (Seq sep (Seq ws_star quote))) v \<Longrightarrow> pre_lead v"
    by (rule pre_lead_Seq[OF s(1) 2])
  show "pre_lead g" using pre_lead_Seq[OF s(3) 3] assms(3) by simp
  have "minlen (seqs [Lit n, ws_star, sep, ws_star, quote]) \<le> length g"
    using minlen_accepts[OF assms(3)] .
  then show "2 \<le> length g" using assms(1)
    by (cases n) (simp_all add: ws_star_def sep_def quote_def)
qed

lemma lead_exported:
  assumes "list_all okc n"
    "accepts (seqs [Lit ''export'', ws_plus, w_star, Lit n, w_star, ws_star, Lit ''='',
                      ws_star, quote]) g"
  shows "lead g"
proof (rule lead_of)
  have s: "all_chars okc ws_star" "all_chars okc ws_plus" "all_chars okc w_star"
    "all_chars okc (Lit n)" "all_chars okc (Lit ''export'')" "all_chars okc (Lit ''='')"
    using space_okc word_okc assms(1)
    by (auto simp: ws_star_def ws_plus_def w_star_def okc_def is_quote_def)
  have 1: "\<And>v. accepts (Seq ws_star quote) v \<Longrightarrow> pre_lead v"
    by (rule pre_lead_Seq[OF s(1) pre_lead_quote])
  have 2: "\<And>v. accepts (Seq (Lit ''='') (Seq ws_star quote)) v \<Longrightarrow> pre_lead v"
    by (rule pre_lead_Seq[OF s(6) 1])
  have 3: "\<And>v. accepts (Seq ws_star (Seq (Lit ''='') (Seq ws_star quote))) v \<Longrightarrow> pre_lead v"
    by (rule pre_lead_Seq[OF s(1) 2])
  have 4: "\<And>v. accepts (Seq w_star (Seq ws_star (Seq (Lit ''='') (Seq ws_star quote)))) v
      \<Longrightarrow> pre_lead v"
    by (rule pre_lead_Seq[OF s(3) 3])
  have 5: "\<And>v. accepts (Seq (Lit n) (Seq w_star (Seq ws_star (Seq (Lit ''='')
      (Seq ws_star quote))))) v \<Longrightarrow> pre_lead v"
    by (rule pre_lead_Seq[OF s(4) 4])
  have 6: "\<And>v. accepts (Seq w_star (Seq (Lit n) (Seq w_star (Seq ws_star (Seq (Lit ''='')
      (Seq ws_star quote)))))) v \<Longrightarrow> pre_lead v"
    by (rule pre_lead_Seq[OF s(3) 5])
  have 7: "\<And>v. accepts (Seq ws_plus (Seq w_star (Seq (Lit n) (Seq w_star (Seq ws_star
      (Seq (Lit ''='') (Seq ws_star quote))))))) v \<Longrightarrow> pre_lead v"
    by (rule pre_lead_Seq[OF s(2) 6])
  show "pre_lead g" using pre_lead_Seq[OF s(5) 7] assms(2) by simp
  have "minlen (seqs [Lit ''export'', ws_plus, w_star, Lit n, w_star, ws_star, Lit ''='',
                      ws_star, quote]) \<le> length g"
    using minlen_accepts[OF assms(2)] .
  then show "2 \<le> length g" by (simp add: ws_star_def ws_plus_def w_star_def quote_def)
qed

lemma lead_variable:
  assumes "list_all okc n"
    "accepts (seqs [w_star, Lit n, w_star, ws_star, Lit ''='', ws_star, quote]) g"
  shows "lead g"
proof (rule lead_of)
  have s: "all_chars okc ws_star" "all_chars okc w_star"
    "all_chars okc (Lit n)" "all_chars okc (Lit ''='')"
    using space_okc word_okc assms(1)
    by (auto simp: ws_star_def w_star_def okc_def is_quote_def)
  have 1: "\<And>v. accepts (Seq ws_star quote) v \<Longrightarrow> pre_lead v"
    by (rule pre_lead_Seq[OF s(1) pre_lead_quote])
  have 2: "\<And>v. accepts (Seq (Lit ''='') (Seq ws_star quote)) v \<Longrightarrow> pre_lead v"
    by (rule pre_lead_Seq[OF s(4) 1])
  have 3: "\<And>v. accepts (Seq ws_star (Seq (Lit ''='') (Seq ws_star quote))) v \<Longrightarrow> pre_lead v"
    by (rule pre_lead_Seq[OF s(1) 2])
  have 4: "\<And>v. accepts (Seq w_star (Seq ws_star (Seq (Lit ''='') (Seq ws_star quote)))) v
      \<Longrightarrow> pre_lead v"
    by (rule pre_lead_Seq[OF s(2) 3])
  have 5: "\<And>v. accepts (Seq (Lit n) (Seq w_star (Seq ws_star (Seq (Lit ''='')
      (Seq ws_star quote))))) v \<Longrightarrow> pre_lead v"
    by (rule pre_lead_Seq[OF s(3) 4])
  show "pre_lead g" using pre_lead_Seq[OF s(2) 5] assms(2) by simp
  have "minlen (seqs [w_star, Lit n, w_star, ws_star, Lit ''='', ws_star, quote]) \<le> length g"
    using minlen_accepts[OF assms(2)] .
  then show "2 \<le> length g" by (simp add: ws_star_def w_star_def quote_def)
qed

lemma famQ_shape:
  assumes "\<And>g. accepts a g \<Longrightarrow> lead g"
  shows "famQ (part (Seq (Grp a) (Seq (Grp unquoted) (Grp quote))))"
  unfolding famQ_def
proof (intro exI[of _ "accepts a"] conjI allI impI)
  fix g
  assume "accepts a g"
  then show "lead g" by (rule assms)
next
  show "part (Seq (Grp a) (Seq (Grp unquoted) (Grp quote)))
      = (\<lambda>g1 S g3. accepts a g1 \<and> list_all (\<lambda>c. \<not> is_quote c) S \<and> (\<exists>q. g3 = [q] \<and> is_quote q))"
    by (intro ext) (simp add: accepts_quote accepts_unquoted)
qed

lemma plain_parts [simp]:
  "plain ws_star" "plain ws_plus" "plain w_star" "plain sep" "plain quote" "plain unquoted"
  by (simp_all add: ws_star_def ws_plus_def w_star_def sep_def quote_def unquoted_def)

lemma isQ_assigned:
  assumes "n \<noteq> []" "list_all okc n"
  shows "isQ (assigned n)"
proof -
  have "famQ (part (Seq (Grp (seqs [Lit n, ws_star, sep, ws_star, quote]))
      (Seq (Grp unquoted) (Grp quote))))"
    by (rule famQ_shape) (rule lead_assigned[OF assms])
  then show ?thesis by (simp add: isQ_def assigned_def)
qed

lemma isQ_exported:
  assumes "list_all okc n"
  shows "isQ (exported n)"
proof -
  have "famQ (part (Seq (Grp (seqs [Lit ''export'', ws_plus, w_star, Lit n, w_star, ws_star,
      Lit ''='', ws_star, quote])) (Seq (Grp unquoted) (Grp quote))))"
    by (rule famQ_shape) (rule lead_exported[OF assms])
  then show ?thesis by (simp add: isQ_def exported_def)
qed

lemma isQ_variable:
  assumes "list_all okc n"
  shows "isQ (variable n)"
proof -
  have "famQ (part (Seq (Grp (seqs [w_star, Lit n, w_star, ws_star, Lit ''='', ws_star, quote]))
      (Seq (Grp unquoted) (Grp quote))))"
    by (rule famQ_shape) (rule lead_variable[OF assms])
  then show ?thesis by (simp add: isQ_def variable_def)
qed

lemma famT_shape:
  assumes "pre \<noteq> []" "list_ex (\<lambda>c. c \<notin> set ''REDACTED'') pre" "all_chars bland (Seq (Lit pre) r)"
  shows "famT (part (Grp (Seq (Lit pre) r)))"
  unfolding famT_def
proof (intro allI impI)
  fix g1 S g3
  assume "part (Grp (Seq (Lit pre) r)) g1 S g3"
  then have g: "g1 = []" "g3 = []" and a: "accepts (Seq (Lit pre) r) S" by simp_all
  from a obtain v where S: "S = pre @ v" unfolding accepts_Seq by auto
  have "list_all bland S" using all_chars_accepts[OF assms(3) a] .
  moreover have "S \<noteq> []" using S assms(1) by simp
  moreover have "list_ex (\<lambda>c. c \<notin> set ''REDACTED'') S" using S assms(2) by simp
  ultimately show "g1 = [] \<and> g3 = [] \<and> marked S" using g unfolding marked_def by simp
qed

lemma isT_token:
  assumes "pre \<noteq> []" "list_ex (\<lambda>c. c \<notin> set ''REDACTED'') pre" "list_all bland pre"
    "\<And>c. cls c \<Longrightarrow> bland c"
  shows "isT (token pre cls m)"
  unfolding isT_def token_def using famT_shape[OF assms(1,2), of "Chars cls m None True"] assms(3,4)
  by simp

lemma isT_aws_key: "isT aws_key"
  unfolding isT_def aws_key_def
  using famT_shape[of "''AKIA''" "Chars upper_digit 16 (Some 16) True"] class_bland(2)
  by (simp add: bland_def is_quote_def)

lemma isT_jwt: "isT jwt"
  unfolding isT_def jwt_def
  using famT_shape[of "''eyJ''" "seqs [Chars alnum_us_dash 1 None True, Lit ''.'',
      Chars alnum_us_dash 1 None True, Lit ''.'', Chars alnum_us_dash 1 None True]"]
    class_bland(3)
  by (simp add: bland_def is_quote_def)

lemma isD_db_url:
  assumes "sch \<noteq> []" "list_all is_lower sch"
  shows "isD (db_url sch)"
proof -
  have l: "lit_ok (sch @ ''://'')" using assms unfolding lit_ok_def by blast
  have "part (db_url sch) g1 S g3 \<longleftrightarrow>
      (\<exists>x. g1 = (sch @ ''://'') @ x @ '':'' \<and> x \<noteq> [] \<and> CHR '':'' \<notin> set x)
        \<and> S \<noteq> [] \<and> CHR ''@'' \<notin> set S \<and> g3 = ''@''" for g1 S g3
    by (auto simp: db_url_def accepts_Seq none_of_def list_all_iff Suc_le_eq)
  then have "part (db_url sch) = (\<lambda>g1 S g3.
      (\<exists>x. g1 = (sch @ ''://'') @ x @ '':'' \<and> x \<noteq> [] \<and> CHR '':'' \<notin> set x)
        \<and> S \<noteq> [] \<and> CHR ''@'' \<notin> set S \<and> g3 = ''@'')"
    by (intro ext)
  then have "famD (part (db_url sch))" using l unfolding famD_def by blast
  moreover have "ruleish (db_url sch)" by (simp add: db_url_def)
  ultimately show ?thesis by (simp add: isD_def)
qed

lemma isQL_assigned_long:
  assumes "n \<noteq> []" "list_all okc n" "\<And>c. cls c \<Longrightarrow> bland c" "0 < m"
  shows "isQL (assigned_long n cls m)"
proof -
  have "famQL (part (assigned_long n cls m))"
    unfolding famQL_def
  proof (intro allI impI)
    fix g1 S g3
    assume "part (assigned_long n cls m) g1 S g3"
    then have a: "accepts (seqs [Lit n, ws_star, sep, ws_star, quote]) g1"
      "list_all cls S" "m \<le> length S" "accepts quote g3"
      by (simp_all add: assigned_long_def)
    have "lead g1" using lead_assigned[OF assms(1,2) a(1)] .
    moreover have "S \<noteq> []" using a(3) assms(4) by auto
    moreover have "list_all bland S" using a(2) assms(3) by (auto simp: list_all_iff)
    ultimately show "lead g1 \<and> S \<noteq> [] \<and> list_all bland S \<and> (\<exists>q. g3 = [q] \<and> is_quote q)"
      using a(4) accepts_quote by simp
  qed
  moreover have "ruleish (assigned_long n cls m)" by (simp add: assigned_long_def)
  ultimately show ?thesis by (simp add: isQL_def)
qed

subsection \<open>The loop of the sanitizer\<close>

text \<open>
  Through the loop of \<^verbatim>\<open>sanitize_diff\<close> the text stays settled for every rule already applied,
  so that at the end it is settled for all of them and a second run changes nothing.
\<close>

lemma solid_Q: "famQ P \<Longrightarrow> solid P"
  unfolding solid_def using famQ_lead lead_facts(1) by fastforce

lemma solid_QL: "famQL P \<Longrightarrow> solid P"
  unfolding solid_def famQL_def by auto

lemma solid_T: "famT P \<Longrightarrow> solid P"
  unfolding solid_def famT_def marked_def by auto

lemma solid_D:
  assumes "famD P"
  shows "solid P"
proof -
  from D_shape[OF assms] obtain lit
    where "\<forall>h1 T h3. P h1 T h3 \<longrightarrow>
       (\<exists>y. h1 = lit @ y @ '':'' \<and> y \<noteq> [] \<and> CHR '':'' \<notin> set y) \<and> T \<noteq> [] \<and> CHR ''@'' \<notin> set T
       \<and> h3 = ''@''" by blast
  then show ?thesis unfolding solid_def by blast
qed

lemma rule_ok_solid: "rule_ok r \<Longrightarrow> ruleish r \<and> solid (part r)"
  unfolding rule_ok_def later_def isQ_def isT_def isD_def isQL_def
  using solid_Q solid_QL solid_T solid_D by blast

lemma rule_atoms:
  assumes "rule_ok r"
  shows "\<exists>as. cut (part r) s as \<and> old_text as = s \<and> apply_rule cfg r s = new_text as"
proof -
  from rule_ok_solid[OF assms] have r: "ruleish r" "solid (part r)" by auto
  from scan_cut[OF r] have "cut (part r) s (atoms r s)"
    "sub r (repl_of r) s = new_text (atoms r s)" by auto
  then show ?thesis using cut_old apply_rule_repl[OF r(1)] by metis
qed

lemma est:
  assumes "rule_ok r"
  shows "settled (part r) (apply_rule cfg r s)"
proof -
  from rule_atoms[OF assms] obtain as where a: "cut (part r) s as"
    "apply_rule cfg r s = new_text as" by blast
  from assms have "famQ (part r) \<or> famT (part r) \<or> famD (part r) \<or> famQL (part r)"
    unfolding rule_ok_def later_def isQ_def isT_def isD_def isQL_def by blast
  then show ?thesis using E_Q[OF _ a(1)] E_T[OF _ a(1)] E_D[OF _ a(1)] E_QL[OF _ a(1)] a(2)
    by auto
qed

lemma pres_Q:
  assumes "isQ a" "rule_ok c" "settled (part a) s"
  shows "settled (part a) (apply_rule cfg c s)"
proof -
  from rule_atoms[OF assms(2)] obtain as where a: "cut (part c) s as" "old_text as = s"
    "apply_rule cfg c s = new_text as" by blast
  have f: "famQ (part a)" using assms(1) by (simp add: isQ_def)
  have st: "settled (part a) (old_text as)" using assms(3) a(2) by simp
  from assms(2) have "famQ (part c) \<or> famT (part c) \<or> famD (part c) \<or> famQL (part c)"
    unfolding rule_ok_def later_def isQ_def isT_def isD_def isQL_def by blast
  then have "kindQ as \<or> kindT as \<or> kindD as"
    using cut_kindQ[OF _ a(1)] cut_kindT[OF _ a(1)] cut_kindD[OF _ a(1)]
      kindQL_kindQ[OF cut_kindQL[OF _ a(1)]] by blast
  then show ?thesis using P_Q_Q[OF f _ st] P_Q_T[OF f _ st] P_Q_D[OF f _ st] a(3) by auto
qed

lemma pres_plain:
  assumes "isT a \<or> isQL a" "rule_ok c" "settled (part a) s"
  shows "settled (part a) (apply_rule cfg c s)"
proof -
  from rule_atoms[OF assms(2)] obtain as where a: "cut (part c) s as" "old_text as = s"
    "apply_rule cfg c s = new_text as" by blast
  have st: "settled (part a) (old_text as)" using assms(3) a(2) by simp
  from assms(1) show ?thesis using P_T[OF _ st] P_QL[OF _ st] a(3)
    unfolding isT_def isQL_def by auto
qed

lemma pres_D:
  assumes "isD a" "later c" "settled (part a) s"
  shows "settled (part a) (apply_rule cfg c s)"
proof -
  have "rule_ok c" using assms(2) by (simp add: rule_ok_def)
  from rule_atoms[OF this] obtain as where a: "cut (part c) s as" "old_text as = s"
    "apply_rule cfg c s = new_text as" by blast
  have f: "famD (part a)" using assms(1) by (simp add: isD_def)
  have st: "settled (part a) (old_text as)" using assms(3) a(2) by simp
  from assms(2) have "famT (part c) \<or> famD (part c) \<or> famQL (part c)"
    unfolding later_def isT_def isD_def isQL_def by blast
  then have "kindT as \<or> kindD as \<or> kindQL as"
    using cut_kindT[OF _ a(1)] cut_kindD[OF _ a(1)] cut_kindQL[OF _ a(1)] by blast
  then show ?thesis using P_D_T[OF f _ st] P_D_D[OF f _ st] P_D_QL[OF f _ st] a(3) by auto
qed

lemma pres_later:
  assumes "rule_ok a" "later c" "settled (part a) s"
  shows "settled (part a) (apply_rule cfg c s)"
proof -
  have c: "rule_ok c" using assms(2) by (simp add: rule_ok_def)
  from assms(1) have "isQ a \<or> (isT a \<or> isQL a) \<or> isD a"
    unfolding rule_ok_def later_def by blast
  then show ?thesis
    using pres_Q[OF _ c assms(3)] pres_plain[OF _ c assms(3)] pres_D[OF _ assms(2,3)] by blast
qed

lemma loop_Q:
  "list_all isQ qs \<Longrightarrow> list_all isQ seen \<Longrightarrow> (\<forall>r\<in>set seen. settled (part r) s) \<Longrightarrow>
   \<forall>r\<in>set (seen @ qs). settled (part r) (sanitize_loop cfg s qs)"
proof (induction qs arbitrary: seen s)
  case Nil
  then show ?case by simp
next
  case (Cons c qs)
  from Cons.prems(1) have c: "isQ c" and qs: "list_all isQ qs" by simp_all
  have ok: "rule_ok c" using c by (simp add: rule_ok_def)
  have 1: "list_all isQ (seen @ [c])" using Cons.prems(2) c by simp
  have 2: "\<forall>r\<in>set (seen @ [c]). settled (part r) (apply_rule cfg c s)"
  proof
    fix r
    assume "r \<in> set (seen @ [c])"
    then have "r \<in> set seen \<or> r = c" by auto
    then show "settled (part r) (apply_rule cfg c s)"
    proof
      assume r: "r \<in> set seen"
      then have "isQ r" using Cons.prems(2) by (auto simp: list_all_iff)
      from pres_Q[OF this ok] r Cons.prems(3) show ?thesis by blast
    next
      assume "r = c"
      then show ?thesis using est[OF ok] by simp
    qed
  qed
  from Cons.IH[OF qs 1 2] show ?case by simp
qed

lemma loop_later:
  "list_all later ls \<Longrightarrow> list_all rule_ok seen \<Longrightarrow> (\<forall>r\<in>set seen. settled (part r) s) \<Longrightarrow>
   \<forall>r\<in>set (seen @ ls). settled (part r) (sanitize_loop cfg s ls)"
proof (induction ls arbitrary: seen s)
  case Nil
  then show ?case by simp
next
  case (Cons c ls)
  from Cons.prems(1) have c: "later c" and ls: "list_all later ls" by simp_all
  have ok: "rule_ok c" using c by (simp add: rule_ok_def)
  have 1: "list_all rule_ok (seen @ [c])" using Cons.prems(2) ok by simp
  have 2: "\<forall>r\<in>set (seen @ [c]). settled (part r) (apply_rule cfg c s)"
  proof
    fix r
    assume "r \<in> set (seen @ [c])"
    then have "r \<in> set seen \<or> r = c" by auto
    then show "settled (part r) (apply_rule cfg c s)"
    proof
      assume r: "r \<in> set seen"
      then have "rule_ok r" using Cons.prems(2) by (auto simp: list_all_iff)
      from pres_later[OF this c] r Cons.prems(3) show ?thesis by blast
    next
      assume "r = c"
      then show ?thesis using est[OF ok] by simp
    qed
  qed
  from Cons.IH[OF ls 1 2] show ?case by simp
qed

lemma sanitize_loop_append:
  "sanitize_loop cfg s (xs @ ys) = sanitize_loop cfg (sanitize_loop cfg s xs) ys"
  by (induction xs arbitrary: s) simp_all

lemma all_settled:
  assumes "list_all isQ qs" "list_all later ls"
  shows "\<forall>r\<in>set (qs @ ls). settled (part r) (sanitize_loop cfg s (qs @ ls))"
proof -
  have 1: "\<forall>r\<in>set qs. settled (part r) (sanitize_loop cfg s qs)"
    using loop_Q[OF assms(1), of "[]" s cfg] by simp
  have 2: "list_all rule_ok qs" using assms(1) by (auto simp: list_all_iff rule_ok_def)
  from loop_later[OF assms(2) 2 1] show ?thesis by (simp add: sanitize_loop_append)
qed

lemma fixed_loop:
  "(\<forall>r\<in>set ps. rule_ok r \<and> settled (part r) s) \<Longrightarrow> sanitize_loop cfg s ps = s"
proof (induction ps)
  case Nil
  then show ?case by simp
next
  case (Cons c ps)
  then have c: "rule_ok c" "settled (part c) s" by simp_all
  from rule_ok_solid[OF c(1)] have "apply_rule cfg c s = s"
    using settled_fixed c(2) by blast
  then show ?case using Cons by simp
qed

lemma settled_Nil: "solid P \<Longrightarrow> settled P []"
  unfolding solid_def settled_def by auto

lemma shipped_phases:
  "\<exists>qs ls. patterns shipped = qs @ ls \<and> list_all isQ qs \<and> list_all later ls"
proof -
  let ?qs = "[assigned ''password'', assigned ''api_key'', assigned ''token'', assigned ''secret'',
       assigned ''key'', assigned ''auth'', assigned ''pass'', assigned ''pwd'',
       exported ''PASSWORD'', exported ''SECRET'', exported ''KEY'', exported ''TOKEN'',
       exported ''AUTH'',
       variable ''PASSWORD'', variable ''SECRET'', variable ''KEY'', variable ''TOKEN'',
       variable ''AUTH'']"
  let ?ls = "[token ''sk-'' is_alnum 20, token ''sk-proj-'' is_alnum 20, token ''pk_'' is_alnum 20,
       token ''pk_test_'' is_alnum 20, token ''xoxb-'' alnum_dash 1, token ''xoxp-'' alnum_dash 1,
       token ''ghp_'' is_alnum 36, token ''gho_'' is_alnum 36, token ''ghu_'' is_alnum 36,
       token ''ghs_'' is_alnum 36, token ''ghr_'' is_alnum 36,
       db_url ''mongodb'', db_url ''postgres'', db_url ''mysql'', db_url ''redis'',
       aws_key,
       jwt,
       assigned_long ''password'' base64ish 20, assigned_long ''secret'' lower_hex 32,
       assigned_long ''key'' alnum_us 8]"
  have 1: "patterns shipped = ?qs @ ?ls" by (simp add: shipped_def)
  have 2: "list_all isQ ?qs"
    by (simp add: isQ_assigned isQ_exported isQ_variable okc_def is_quote_def)
  have t: "\<And>pre m. pre \<noteq> [] \<Longrightarrow> list_ex (\<lambda>c. c \<notin> set ''REDACTED'') pre \<Longrightarrow> list_all bland pre
      \<Longrightarrow> later (token pre is_alnum m)"
    "\<And>pre m. pre \<noteq> [] \<Longrightarrow> list_ex (\<lambda>c. c \<notin> set ''REDACTED'') pre \<Longrightarrow> list_all bland pre
      \<Longrightarrow> later (token pre alnum_dash m)"
    using isT_token alnum_bland class_bland(1) unfolding later_def by blast+
  have d: "\<And>sch. sch \<noteq> [] \<Longrightarrow> list_all is_lower sch \<Longrightarrow> later (db_url sch)"
    using isD_db_url unfolding later_def by blast
  have l: "\<And>n m. n \<noteq> [] \<Longrightarrow> list_all okc n \<Longrightarrow> 0 < m \<Longrightarrow> later (assigned_long n base64ish m)"
    "\<And>n m. n \<noteq> [] \<Longrightarrow> list_all okc n \<Longrightarrow> 0 < m \<Longrightarrow> later (assigned_long n lower_hex m)"
    "\<And>n m. n \<noteq> [] \<Longrightarrow> list_all okc n \<Longrightarrow> 0 < m \<Longrightarrow> later (assigned_long n alnum_us m)"
    using isQL_assigned_long class_bland(4,5,6) unfolding later_def by blast+
  have k: "later aws_key" "later jwt" using isT_aws_key isT_jwt by (simp_all add: later_def)
  have 3: "list_all later ?ls"
    by (simp add: t d l k bland_def okc_def is_quote_def is_lower_def between_def ord_def)
  show ?thesis using 1 2 3 by blast
qed

text \<open>
  C4. Sanitizing is idempotent for the shipped rules: whatever \<^verbatim>\<open>sanitize_diff\<close> is given, a
  text or \<^verbatim>\<open>None\<close>, sanitizing its result again returns that result unchanged,
  \<^verbatim>\<open>sanitize(sanitize(T)) == sanitize(T)\<close>.
\<close>

theorem sanitize_idempotent:
  "sanitize_diff shipped (Some (sanitize_diff shipped diff)) = sanitize_diff shipped diff"
proof -
  from shipped_phases obtain qs ls where ps: "patterns shipped = qs @ ls"
    and q: "list_all isQ qs" and l: "list_all later ls" by blast
  have ok: "\<forall>r\<in>set (qs @ ls). rule_ok r"
    using q l by (auto simp: list_all_iff rule_ok_def)
  have f: "sanitize_loop shipped s (qs @ ls) = s"
    if "\<forall>r\<in>set (qs @ ls). settled (part r) s" for s
    using fixed_loop[of "qs @ ls" s shipped] ok that by blast
  show ?thesis
  proof (cases diff)
    case None
    have "\<forall>r\<in>set (qs @ ls). settled (part r) []"
      using ok rule_ok_solid settled_Nil by blast
    from f[OF this] show ?thesis using None ps by (simp add: sanitize_diff_def)
  next
    case (Some t)
    from f[OF all_settled[OF q l, of shipped t]] show ?thesis
      using Some ps by (simp add: sanitize_diff_def)
  qed
qed


end
